theory Spec2Isabelle
  imports Complex_Main "HOL-Library.Extended_Nat" "HOL-Library.Multiset"
begin

section \<open>Numbers and arrays of the host language\<close>

text \<open>
  The sizes the program reads from its environment (\<^verbatim>\<open>DB_CHUNK_SIZE\<close>,
  \<^verbatim>\<open>AMP_BATCH_SIZE\<close>) are JavaScript numbers whose default for the relational
  chunk size is \<^verbatim>\<open>Infinity\<close>. They are modelled as extended naturals: a
  non-negative integer or \<open>\<infinity>\<close>. Negative, fractional and NaN sizes are outside
  the model. Loop counters that are advanced by such a size are extended naturals too.

  \<^verbatim>\<open>Array.prototype.slice(start, end)\<close> on such arguments returns the elements at
  the positions \<open>start \<le> i < end\<close> that exist.
\<close>

definition slice :: "'a list \<Rightarrow> enat \<Rightarrow> enat \<Rightarrow> 'a list" where
  "slice xs start end =
     (case start of
        \<infinity> \<Rightarrow> []
      | enat s \<Rightarrow> (case end of \<infinity> \<Rightarrow> drop s xs | enat e \<Rightarrow> take (e - s) (drop s xs)))"

section \<open>Identifier loader (main, lines 294 to 312)\<close>

text \<open>
  The input artifact is a file holding a JSON array. Reading or parsing it can fail, and
  the parsed value need not be an array. The elements are taken as strings, on which
  \<^verbatim>\<open>String\<close> is the identity.
\<close>

datatype input = ReadError string | ParseError string | NotArray | JsonArray "string list"

text \<open>
  \<^verbatim>\<open>[...new Set(xs)]\<close>: a set keeps its elements in insertion order, and adding an
  element that is already present changes nothing.
\<close>

fun set_add_all :: "string list \<Rightarrow> string list \<Rightarrow> string list" where
  "set_add_all acc [] = acc"
| "set_add_all acc (x # xs) = set_add_all (if x \<in> set acc then acc else acc @ [x]) xs"

definition dedupe :: "string list \<Rightarrow> string list" where
  "dedupe xs = set_add_all [] xs"

record loaded =
  allIds :: "string list"
  totalIds :: nat
  uniqueIds :: nat

definition load_ids :: "input \<Rightarrow> string + loaded" where
  "load_ids inp =
     (case inp of
        ReadError e \<Rightarrow> Inl e
      | ParseError e \<Rightarrow> Inl e
      | NotArray \<Rightarrow> Inl ''Input must be a JSON array of user IDs''
      | JsonArray parsedIds \<Rightarrow>
          if length parsedIds = 0 then Inl ''Input array is empty''
          else let ids = dedupe parsedIds
               in Inr \<lparr>allIds = ids, totalIds = length parsedIds, uniqueIds = length ids\<rparr>)"

section \<open>Relational purge engine (runGdprSqlWithTempTable)\<close>

text \<open>
  The statements one chunk issues, in order. Each of them can throw; so can taking a
  client from the pool and reading the deletion script from disk.
\<close>

datatype db_step = Connect | Begin | CreateTemp | BulkLoad | ReadSql | RunSql | Commit

datatype db_event =
    EvConnect
  | EvBegin
  | EvCreateTemp
  | EvBulkLoad "string list"
  | EvReadSql
  | EvRunSql
  | EvCommit
  | EvRollback
  | EvRelease
  | EvPoolEnd

text \<open>
  The state of the store as the engine sees it: the trace of everything issued so far and
  the chunks whose \<^verbatim>\<open>COMMIT\<close> returned.
\<close>

record db_state =
  trace :: "db_event list"
  committed :: "string list list"

definition issue :: "db_event \<Rightarrow> db_state \<Rightarrow> db_state" where
  "issue ev st = st\<lparr>trace := trace st @ [ev]\<rparr>"

text \<open>
  The statements inside the inner \<^verbatim>\<open>try\<close>, run in order until the one that throws.
  \<open>fault\<close> names the step that throws for this chunk, if any, with the message of the
  error it throws. A step that throws is still issued (it appears in the trace), but has
  no effect.
\<close>

type_synonym db_error = "db_step \<times> string"

fun run_steps :: "db_error option \<Rightarrow> string list \<Rightarrow> db_step list \<Rightarrow> db_state \<Rightarrow> db_error option \<times> db_state" where
  "run_steps fault sl [] st = (None, st)"
| "run_steps fault sl (s # ss) st =
     (let ev = (case s of
                  Connect \<Rightarrow> EvConnect
                | Begin \<Rightarrow> EvBegin
                | CreateTemp \<Rightarrow> EvCreateTemp
                | BulkLoad \<Rightarrow> EvBulkLoad sl
                | ReadSql \<Rightarrow> EvReadSql
                | RunSql \<Rightarrow> EvRunSql
                | Commit \<Rightarrow> EvCommit);
          st1 = issue ev st
      in if map_option fst fault = Some s then (fault, st1)
         else run_steps fault sl ss
                (if s = Commit then st1\<lparr>committed := committed st1 @ [sl]\<rparr> else st1))"

text \<open>
  One iteration of the loop body (lines 35 to 68). A failing \<^verbatim>\<open>pool.connect()\<close> is
  outside the inner \<^verbatim>\<open>try\<close>: nothing is rolled back or released. Any later failure
  runs \<^verbatim>\<open>safeRollback\<close> (whose own error is swallowed) and rethrows; the client is
  released on every path.
\<close>

definition process_chunk :: "db_error option \<Rightarrow> string list \<Rightarrow> db_state \<Rightarrow> db_error option \<times> db_state" where
  "process_chunk fault sl st =
     (if map_option fst fault = Some Connect then (fault, issue EvConnect st)
      else
        (case run_steps fault sl [Begin, CreateTemp, BulkLoad, ReadSql, RunSql, Commit]
                (issue EvConnect st) of
           (Some e, st1) \<Rightarrow> (Some e, issue EvRelease (issue EvRollback st1))
         | (None, st1) \<Rightarrow> (None, issue EvRelease st1)))"

text \<open>
  The chunk loop (line 34). \<open>k\<close> counts the iterations and selects the fault of the
  current chunk. With a chunk size of 0 the loop never advances; the result \<open>None\<close>
  stands for a run that does not return.
\<close>

partial_function (option) chunk_loop ::
  "(nat \<Rightarrow> db_error option) \<Rightarrow> enat \<Rightarrow> string list \<Rightarrow> enat \<Rightarrow> nat \<Rightarrow> db_state
     \<Rightarrow> (db_error option \<times> db_state) option" where
  "chunk_loop fault chunkSize ids start k st =
     (if start < enat (length ids) then
        (case process_chunk (fault k) (slice ids start (start + chunkSize)) st of
           (Some e, st1) \<Rightarrow> Some (Some e, st1)
         | (None, st1) \<Rightarrow> chunk_loop fault chunkSize ids (start + chunkSize) (Suc k) st1)
      else Some (None, st))"

text \<open>
  The whole engine: the pool is ended on every path (outer \<^verbatim>\<open>finally\<close>). The result
  is the error thrown (with the step that threw it), or \<open>None\<close> when every chunk
  committed.
\<close>

definition runGdprSqlWithTempTable ::
  "(nat \<Rightarrow> db_error option) \<Rightarrow> enat \<Rightarrow> string list \<Rightarrow> (db_error option \<times> db_state) option" where
  "runGdprSqlWithTempTable fault chunkSize ids =
     map_option (\<lambda>(r, st). (r, issue EvPoolEnd st))
       (chunk_loop fault chunkSize ids 0 0 \<lparr>trace = [], committed = []\<rparr>)"

section \<open>External eraser client (amplitude.ts)\<close>

text \<open>
  \<^verbatim>\<open>calculateBackoff\<close> (lines 5 to 8). \<open>r\<close> is the value \<^verbatim>\<open>Math.random()\<close> returns,
  a number with \<open>0 \<le> r < 1\<close>. Delays are numbers of milliseconds. The source computes
  in double precision: the result of every operation is rounded to a double, and \<open>fl\<close> is
  that rounding (the identity on every number that is a double). The minimum of two
  doubles is one of them and needs no rounding. A power that overflows is
  \<^verbatim>\<open>Infinity\<close>, which lies above every cap, as does the real number it stands for.
  The client always calls the function with the defaults \<open>baseMs = 1000\<close> and
  \<open>capMs = 15000\<close>.
\<close>

definition calculateBackoff :: "(real \<Rightarrow> real) \<Rightarrow> nat \<Rightarrow> real \<Rightarrow> real \<Rightarrow> real \<Rightarrow> real" where
  "calculateBackoff fl attempt baseMs capMs r =
     (let jitter = fl (r * 250) in fl (min capMs (fl (baseMs * fl (2 ^ attempt))) + jitter))"

definition default_baseMs :: real where
  "default_baseMs = 1000"

definition default_capMs :: real where
  "default_capMs = 15000"

record AmplitudeResult =
  id' :: string
  ok :: bool
  error :: "string option"

text \<open>
  What one \<^verbatim>\<open>fetch\<close> of a batch can do: resolve with a status and a body that can be
  read, resolve with a status whose body cannot be read (\<^verbatim>\<open>res.text()\<close> rejects), or
  reject. \<^verbatim>\<open>res.ok\<close> is true for the statuses 200 to 299.
\<close>

datatype http_outcome = Response nat string | BodyFails nat string | Throws string

definition res_ok :: "nat \<Rightarrow> bool" where
  "res_ok status \<longleftrightarrow> 200 \<le> status \<and> status \<le> 299"

text \<open>Decimal digits of a status code or a count, as a template literal prints them.\<close>

function show_nat :: "nat \<Rightarrow> string" where
  "show_nat n =
     (if n < 10 then [''0123456789'' ! n]
      else show_nat (n div 10) @ [''0123456789'' ! (n mod 10)])"
  by pat_completeness auto
termination
  by (relation "measure id") auto

text \<open>
  The shared state of a call of the client: the \<^verbatim>\<open>results\<close> array every batch pushes
  to, and, for the claims, every \<^verbatim>\<open>fetch\<close> issued (batch index and attempt) and
  every delay slept (batch index and milliseconds).
\<close>

record amp_state =
  results :: "AmplitudeResult list"
  calls :: "(nat \<times> nat) list"
  sleeps :: "(nat \<times> real) list"

definition push_all :: "(string \<Rightarrow> AmplitudeResult) \<Rightarrow> string list \<Rightarrow> amp_state \<Rightarrow> amp_state" where
  "push_all mk chunk st = st\<lparr>results := results st @ map mk chunk\<rparr>"

definition sleep :: "nat \<Rightarrow> real \<Rightarrow> amp_state \<Rightarrow> amp_state" where
  "sleep idx ms st = st\<lparr>sleeps := sleeps st @ [(idx, ms)]\<rparr>"

text \<open>
  The body of the \<^verbatim>\<open>try\<close> of one attempt (lines 58 to 93), up to the point where the
  control flow is decided: return after marking the batch ok, return after marking it
  failed with a detail, fall through to the retry of a server error, or land in the
  \<^verbatim>\<open>catch\<close> with an error.
\<close>

datatype try_outcome = ReturnOk | ReturnFailed string | ServerError | Caught string

definition try_body :: "http_outcome \<Rightarrow> try_outcome" where
  "try_body out =
     (case out of
        Response status text \<Rightarrow>
          if res_ok status then ReturnOk
          else if status < 500 then ReturnFailed (''Amplitude '' @ show_nat status @ '': '' @ text)
          else ServerError
      | BodyFails status err \<Rightarrow>
          if res_ok status then ReturnOk
          else if status < 500 then Caught err
          else ServerError
      | Throws err \<Rightarrow> Caught err)"

text \<open>
  The attempt loop of one batch (lines 56 to 109). \<open>resp\<close> gives the outcome of each
  attempt's \<^verbatim>\<open>fetch\<close>, \<open>rnd\<close> the random number drawn for the delay after it, \<open>fl\<close>
  the rounding of the arithmetic. The
  boolean result says whether the batch function returned from inside the loop.
\<close>

function attempt_loop ::
  "(nat \<Rightarrow> http_outcome) \<Rightarrow> (real \<Rightarrow> real) \<Rightarrow> (nat \<Rightarrow> real) \<Rightarrow> nat \<Rightarrow> nat \<Rightarrow> string list
     \<Rightarrow> nat \<Rightarrow> amp_state \<Rightarrow> bool \<times> amp_state" where
  "attempt_loop resp fl rnd maxAttempts idx chunk attempt st =
     (if attempt < maxAttempts then
        (let st1 = st\<lparr>calls := calls st @ [(idx, attempt)]\<rparr>;
             backoff = calculateBackoff fl attempt default_baseMs default_capMs (rnd attempt)
         in case try_body (resp attempt) of
              ReturnOk \<Rightarrow>
                (True, push_all (\<lambda>i. \<lparr>id' = i, ok = True, error = None\<rparr>) chunk st1)
            | ReturnFailed errorMsg \<Rightarrow>
                (True, push_all (\<lambda>i. \<lparr>id' = i, ok = False, error = Some errorMsg\<rparr>) chunk st1)
            | ServerError \<Rightarrow>
                attempt_loop resp fl rnd maxAttempts idx chunk (Suc attempt) (sleep idx backoff st1)
            | Caught err \<Rightarrow>
                if attempt = maxAttempts - 1 then
                  attempt_loop resp fl rnd maxAttempts idx chunk (Suc attempt)
                    (push_all
                       (\<lambda>i. \<lparr>id' = i, ok = False,
                             error = Some (''Network error after '' @ show_nat maxAttempts
                                           @ '' attempts: '' @ err)\<rparr>)
                       chunk st1)
                else
                  attempt_loop resp fl rnd maxAttempts idx chunk (Suc attempt) (sleep idx backoff st1))
      else (False, st))"
  by pat_completeness auto
termination
  by (relation "measure (\<lambda>(resp, fl, rnd, maxAttempts, idx, chunk, attempt, st). maxAttempts - attempt)")
     auto

text \<open>
  After the loop (lines 111 to 117): every identifier of the batch that has no entry in
  the shared array yet gets a \<^verbatim>\<open>Retry exhausted\<close> entry.
\<close>

fun exhausted :: "string list \<Rightarrow> amp_state \<Rightarrow> amp_state" where
  "exhausted [] st = st"
| "exhausted (i # is) st =
     exhausted is
       (if find (\<lambda>r. id' r = i) (results st) = None
        then push_all (\<lambda>i. \<lparr>id' = i, ok = False, error = Some ''Retry exhausted''\<rparr>) [i] st
        else st)"

text \<open>
  One batch, from its first attempt to its completion. Between two of its attempts other
  batches may run, but each batch pushes its entries in one uninterrupted step at its
  end: no \<^verbatim>\<open>await\<close> lies between its first push and its last. So a batch is modelled
  as one step on the shared state, taken when the batch completes.
\<close>

definition run_batch ::
  "(nat \<Rightarrow> http_outcome) \<Rightarrow> (real \<Rightarrow> real) \<Rightarrow> (nat \<Rightarrow> real) \<Rightarrow> nat \<Rightarrow> nat \<Rightarrow> string list
     \<Rightarrow> amp_state \<Rightarrow> amp_state" where
  "run_batch resp fl rnd maxAttempts idx chunk st =
     (case attempt_loop resp fl rnd maxAttempts idx chunk 0 st of
        (True, st1) \<Rightarrow> st1
      | (False, st1) \<Rightarrow> exhausted chunk st1)"

text \<open>The batching loop (lines 42 to 45). With a batch size of 0 it never ends.\<close>

partial_function (option) batch_loop ::
  "string list \<Rightarrow> enat \<Rightarrow> enat \<Rightarrow> string list list \<Rightarrow> string list list option" where
  "batch_loop publicIds batchSize i chunks =
     (if i < enat (length publicIds) then
        batch_loop publicIds batchSize (i + batchSize)
          (chunks @ [slice publicIds i (i + batchSize)])
      else Some chunks)"

text \<open>
  \<^verbatim>\<open>Promise.all\<close> over the limited batches. The batches complete in some order, which
  depends on the timing of the network; \<open>order\<close> lists the batch indices in the order of
  completion. An index that names no batch is skipped.
\<close>

fun complete_batches ::
  "(nat \<Rightarrow> nat \<Rightarrow> http_outcome) \<Rightarrow> (real \<Rightarrow> real) \<Rightarrow> (nat \<Rightarrow> nat \<Rightarrow> real) \<Rightarrow> nat
     \<Rightarrow> string list list \<Rightarrow> nat list \<Rightarrow> amp_state \<Rightarrow> amp_state" where
  "complete_batches resp fl rnd maxAttempts chunks [] st = st"
| "complete_batches resp fl rnd maxAttempts chunks (idx # order) st =
     complete_batches resp fl rnd maxAttempts chunks order
       (if idx < length chunks
        then run_batch (resp idx) fl (rnd idx) maxAttempts idx (chunks ! idx) st
        else st)"

record AmplitudeOptions =
  batchSize :: "enat option"
  concurrentBatches :: "enat option"
  maxAttempts :: "nat option"

text \<open>
  The client. Its result is \<open>None\<close> when the call never returns; otherwise the error
  thrown, if any, and the final state (whose \<open>results\<close> are what the call returns when
  nothing is thrown). The limiter of the \<^verbatim>\<open>p-limit\<close> package refuses a concurrency
  that is not a positive integer or \<^verbatim>\<open>Infinity\<close>.
\<close>

definition deleteUsersAmplitude ::
  "string list \<Rightarrow> string \<Rightarrow> AmplitudeOptions
     \<Rightarrow> (nat \<Rightarrow> nat \<Rightarrow> http_outcome) \<Rightarrow> (real \<Rightarrow> real) \<Rightarrow> (nat \<Rightarrow> nat \<Rightarrow> real) \<Rightarrow> nat list
     \<Rightarrow> (string option \<times> amp_state) option" where
  "deleteUsersAmplitude publicIds apiKey options resp fl rnd order =
     (let bs = (case batchSize options of None \<Rightarrow> 300 | Some b \<Rightarrow> b);
          cb = (case concurrentBatches options of None \<Rightarrow> 4 | Some c \<Rightarrow> c);
          ma = (case maxAttempts options of None \<Rightarrow> 5 | Some m \<Rightarrow> m);
          st0 = \<lparr>results = [], calls = [], sleeps = []\<rparr>
      in if apiKey = [] then Some (Some ''Missing Amplitude API key'', st0)
         else
           (case batch_loop publicIds bs 0 [] of
              None \<Rightarrow> None
            | Some chunks \<Rightarrow>
                if cb = 0
                then Some (Some ''Expected `concurrency` to be a number from 1 and up'', st0)
                else Some (None, complete_batches resp fl rnd ma chunks order st0)))"

section \<open>Run coordinator (main)\<close>

text \<open>
  The environment of a run. A variable that is unset is \<open>None\<close>. The numeric variables
  are given as the numbers \<^verbatim>\<open>Number\<close> reads from them; an unset or empty one takes
  its default. \<open>IDS_JSON_content\<close> is what reading and parsing the input file yields.
\<close>

record env =
  IDS_JSON_content :: input
  DB_URL :: "string option"
  AMPLITUDE_KEY :: "string option"
  DRY_RUN :: "string option"
  DB_CHUNK_SIZE :: "enat option"
  AMP_BATCH_SIZE :: "enat option"
  AMP_CONCURRENCY :: "enat option"
  AMP_MAX_ATTEMPTS :: "nat option"

text \<open>
  When a termination signal arrives, if one does. The handlers only set the flag
  \<^verbatim>\<open>aborted\<close>, which is never reset. \<open>DuringAmplitude n\<close> is a signal that arrives
  after the client has been invoked, when \<open>n\<close> of its batches have completed.
\<close>

datatype signal = Never | BeforeDatabase | DuringDatabase | DuringAmplitude nat

text \<open>
  What the program's text does not fix: what the outside world does during a run, and how
  the host rounds the results of its arithmetic.
\<close>

record world =
  signal_at :: signal
  db_fault :: "nat \<Rightarrow> db_error option"
  http :: "nat \<Rightarrow> nat \<Rightarrow> http_outcome"
  float_round :: "real \<Rightarrow> real"
  random :: "nat \<Rightarrow> nat \<Rightarrow> real"
  completion :: "nat list"

definition requireEnv :: "string \<Rightarrow> string option \<Rightarrow> string + string" where
  "requireEnv name v =
     (case v of
        None \<Rightarrow> Inl (''Missing required environment variable: '' @ name)
      | Some value \<Rightarrow>
          if value = [] then Inl (''Missing required environment variable: '' @ name)
          else Inr value)"

datatype db_status = Success | Failed

text \<open>The report, without the request metadata and the timestamps.\<close>

record GdprReport =
  dryRun :: bool
  input_totalIds :: nat
  input_uniqueIds :: nat
  database_status :: db_status
  database_error :: "string option"
  amplitude_successful :: nat
  amplitude_failed :: nat
  amplitude_results :: "AmplitudeResult list"

text \<open>
  The three texts \<^verbatim>\<open>summary.txt\<close> can hold: the failure summary of the \<^verbatim>\<open>catch\<close>
  block with the error's message, the summary of a completed run, and the text the
  handler of a rejected \<^verbatim>\<open>main()\<close> writes.
\<close>

datatype summary = DeletionFailed string | DeletionSummary | FatalError string

text \<open>
  The observable outcome of a run: the exit code, the files written, and what was done
  to the two stores. Writing the two files is taken to succeed.
\<close>

record run =
  exit_code :: nat
  report_json :: "GdprReport option"
  summary_txt :: summary
  db :: db_state
  amp :: amp_state

definition rejected :: "string \<Rightarrow> run" where
  "rejected msg =
     \<lparr>exit_code = 1, report_json = None, summary_txt = FatalError msg,
      db = \<lparr>trace = [], committed = []\<rparr>,
      amp = \<lparr>results = [], calls = [], sleeps = []\<rparr>\<rparr>"

text \<open>The \<^verbatim>\<open>catch\<close> block of main (lines 361 to 376).\<close>

definition fatal :: "string \<Rightarrow> GdprReport \<Rightarrow> db_state \<Rightarrow> amp_state \<Rightarrow> run" where
  "fatal msg report d a =
     \<lparr>exit_code = 1, report_json = Some report, summary_txt = DeletionFailed msg,
      db = d, amp = a\<rparr>"

definition main :: "env \<Rightarrow> world \<Rightarrow> run option" where
  "main e w =
     (case requireEnv ''DB_URL'' (DB_URL e) of
        Inl msg \<Rightarrow> Some (rejected msg)
      | Inr dbUrl \<Rightarrow>
     (case requireEnv ''AMPLITUDE_KEY'' (AMPLITUDE_KEY e) of
        Inl msg \<Rightarrow> Some (rejected msg)
      | Inr amplitudeKey \<Rightarrow>
     (let report = \<lparr>dryRun = (DRY_RUN e = Some ''true''),
                    input_totalIds = 0, input_uniqueIds = 0,
                    database_status = Success, database_error = None,
                    amplitude_successful = 0, amplitude_failed = 0, amplitude_results = []\<rparr>;
          d0 = \<lparr>trace = [], committed = []\<rparr>;
          a0 = \<lparr>results = [], calls = [], sleeps = []\<rparr>
      in case load_ids (IDS_JSON_content e) of
           Inl msg \<Rightarrow> Some (fatal msg report d0 a0)
         | Inr l \<Rightarrow>
     (let report1 = report\<lparr>input_totalIds := totalIds l, input_uniqueIds := uniqueIds l\<rparr>
      in if signal_at w = BeforeDatabase
         then Some (fatal ''Job aborted before database step'' report1 d0 a0)
         else
     (case runGdprSqlWithTempTable (db_fault w)
             (case DB_CHUNK_SIZE e of None \<Rightarrow> \<infinity> | Some n \<Rightarrow> n) (allIds l) of
        None \<Rightarrow> None
      | Some (Some err, d) \<Rightarrow>
          Some (fatal (''Database deletion failed: '' @ snd err)
                  (report1\<lparr>database_status := Failed, database_error := Some (snd err)\<rparr>) d a0)
      | Some (None, d) \<Rightarrow>
     (let report2 = report1\<lparr>database_status := Success\<rparr>
      in if signal_at w = BeforeDatabase \<or> signal_at w = DuringDatabase
         then Some (fatal ''Job aborted after database step'' report2 d a0)
         else
     (case deleteUsersAmplitude (allIds l) amplitudeKey
             \<lparr>batchSize = Some (case AMP_BATCH_SIZE e of None \<Rightarrow> 300 | Some n \<Rightarrow> n),
              concurrentBatches = Some (case AMP_CONCURRENCY e of None \<Rightarrow> 4 | Some n \<Rightarrow> n),
              maxAttempts = Some (case AMP_MAX_ATTEMPTS e of None \<Rightarrow> 5 | Some n \<Rightarrow> n)\<rparr>
             (http w) (float_round w) (random w) (completion w) of
        None \<Rightarrow> None
      | Some (Some msg, a) \<Rightarrow> Some (fatal msg report2 d a)
      | Some (None, a) \<Rightarrow>
     (let amplitudeResults = results a;
          report3 = report2\<lparr>amplitude_results := amplitudeResults,
                      amplitude_successful := length (filter (\<lambda>r. ok r) amplitudeResults),
                      amplitude_failed := length (filter (\<lambda>r. \<not> ok r) amplitudeResults)\<rparr>
      in Some \<lparr>exit_code = (if amplitude_failed report3 > 0 then 2 else 0),
               report_json = Some report3, summary_txt = DeletionSummary,
               db = d, amp = a\<rparr>))))))))"

section \<open>Reference notions used to state the properties\<close>

text \<open>
  The consecutive pieces of a list, each of \<open>c\<close> elements but possibly the last. This is
  the list both loops are shown to produce; for an unbounded size the whole list is one
  piece.
\<close>

function pieces :: "nat \<Rightarrow> 'a list \<Rightarrow> 'a list list" where
  "pieces c xs = (if c = 0 \<or> xs = [] then [] else take c xs # pieces c (drop c xs))"
  by pat_completeness auto
termination
  by (relation "measure (\<lambda>(c, xs). length xs)") auto

definition partition_of :: "enat \<Rightarrow> 'a list \<Rightarrow> 'a list list" where
  "partition_of C xs =
     (case C of \<infinity> \<Rightarrow> (if xs = [] then [] else [xs]) | enat c \<Rightarrow> pieces c xs)"

text \<open>The chunk loop over a list of chunks that is already formed.\<close>

fun run_chunks ::
  "(nat \<Rightarrow> db_error option) \<Rightarrow> string list list \<Rightarrow> nat \<Rightarrow> db_state \<Rightarrow> db_error option \<times> db_state" where
  "run_chunks fault [] k st = (None, st)"
| "run_chunks fault (sl # sls) k st =
     (case process_chunk (fault k) sl st of
        (Some e, st1) \<Rightarrow> (Some e, st1)
      | (None, st1) \<Rightarrow> run_chunks fault sls (Suc k) st1)"

text \<open>What a chunk that commits leaves in the trace.\<close>

definition committed_events :: "string list \<Rightarrow> db_event list" where
  "committed_events sl =
     [EvConnect, EvBegin, EvCreateTemp, EvBulkLoad sl, EvReadSql, EvRunSql, EvCommit, EvRelease]"

text \<open>The statements of a transaction up to and including a given step.\<close>

fun events_through :: "db_step \<Rightarrow> string list \<Rightarrow> db_event list" where
  "events_through Connect sl = []"
| "events_through Begin sl = [EvBegin]"
| "events_through CreateTemp sl = [EvBegin, EvCreateTemp]"
| "events_through BulkLoad sl = [EvBegin, EvCreateTemp, EvBulkLoad sl]"
| "events_through ReadSql sl = [EvBegin, EvCreateTemp, EvBulkLoad sl, EvReadSql]"
| "events_through RunSql sl = [EvBegin, EvCreateTemp, EvBulkLoad sl, EvReadSql, EvRunSql]"
| "events_through Commit sl = [EvBegin, EvCreateTemp, EvBulkLoad sl, EvReadSql, EvRunSql, EvCommit]"

text \<open>
  The state of the client before any batch, the state a batch adds to, and what one batch
  adds when it finds none of its identifiers in the shared array.
\<close>

definition amp_empty :: amp_state where
  "amp_empty = \<lparr>results = [], calls = [], sleeps = []\<rparr>"

definition amp_append :: "amp_state \<Rightarrow> amp_state \<Rightarrow> amp_state" where
  "amp_append st d =
     \<lparr>results = results st @ results d, calls = calls st @ calls d, sleeps = sleeps st @ sleeps d\<rparr>"

definition batch_effect ::
  "(nat \<Rightarrow> http_outcome) \<Rightarrow> (real \<Rightarrow> real) \<Rightarrow> (nat \<Rightarrow> real) \<Rightarrow> nat \<Rightarrow> nat \<Rightarrow> string list
     \<Rightarrow> amp_state" where
  "batch_effect resp fl rnd ma idx chunk = run_batch resp fl rnd ma idx chunk amp_empty"

definition record_call :: "nat \<Rightarrow> nat \<Rightarrow> amp_state \<Rightarrow> amp_state" where
  "record_call idx a st = st\<lparr>calls := calls st @ [(idx, a)]\<rparr>"

text \<open>
  A transient failure, in the words of the interface: a response of the 5xx class, or a
  failure of the transport, which is a request that is rejected or a response that is not
  a success and whose body cannot be read. \<open>transport_failure\<close> singles out the second
  kind where it reaches the program: the body of a response of the 5xx class is never
  read.
\<close>

definition transient :: "http_outcome \<Rightarrow> bool" where
  "transient out =
     (case out of
        Response status text \<Rightarrow> 500 \<le> status
      | BodyFails status err \<Rightarrow> 500 \<le> status \<or> \<not> (200 \<le> status \<and> status \<le> 299)
      | Throws err \<Rightarrow> True)"

definition transport_failure :: "http_outcome \<Rightarrow> bool" where
  "transport_failure out =
     (case out of
        Response status text \<Rightarrow> False
      | BodyFails status err \<Rightarrow> status < 500 \<and> \<not> (200 \<le> status \<and> status \<le> 299)
      | Throws err \<Rightarrow> True)"

text \<open>
  What is assumed of the rounding to a double: it is monotone, and it leaves the natural
  numbers up to \<open>2 ^ 53\<close> unchanged, which are doubles.
\<close>

definition double_rounding :: "(real \<Rightarrow> real) \<Rightarrow> bool" where
  "double_rounding fl \<longleftrightarrow>
     (\<forall>x y. x \<le> y \<longrightarrow> fl x \<le> fl y) \<and> (\<forall>n::nat. n \<le> 2 ^ 53 \<longrightarrow> fl (real n) = real n)"

text \<open>The part of a delay that grows with the attempt: the doubled base, capped.\<close>

definition capped_part :: "nat \<Rightarrow> real" where
  "capped_part j = min default_capMs (default_baseMs * 2 ^ j)"

text \<open>
  The completion orders a limiter of concurrency \<open>c\<close> admits for \<open>n\<close> batches: every
  batch completes once, and the batch that completes at position \<open>p\<close> has been started,
  which for batch \<open>b\<close> takes \<open>b - c + 1\<close> earlier completions.
\<close>

definition admissible :: "enat \<Rightarrow> nat \<Rightarrow> nat list \<Rightarrow> bool" where
  "admissible c n order \<longleftrightarrow>
     sort order = [0..<n] \<and> (\<forall>(p, b) \<in> set (List.enumerate 0 order). enat b < enat p + c)"

text \<open>
  Whether batch \<open>b\<close> is started before a signal that arrives when \<open>n\<close> batches have
  completed, under concurrency \<open>c\<close>.
\<close>

definition scheduled_before_signal :: "enat \<Rightarrow> nat \<Rightarrow> nat \<Rightarrow> bool" where
  "scheduled_before_signal c n b \<longleftrightarrow> enat b < enat n + c"

text \<open>
  A run used in the examples: five identifiers, relational chunks of two, batches of two
  handled one at a time, a store and a service that never fail, and no signal.
\<close>

definition example_env :: env where
  "example_env =
     \<lparr>IDS_JSON_content = JsonArray [''u1'', ''u2'', ''u3'', ''u4'', ''u5''],
      DB_URL = Some ''postgres://db'', AMPLITUDE_KEY = Some ''key'', DRY_RUN = None,
      DB_CHUNK_SIZE = Some 2, AMP_BATCH_SIZE = Some 2, AMP_CONCURRENCY = Some 1,
      AMP_MAX_ATTEMPTS = None\<rparr>"

definition quiet_world :: world where
  "quiet_world =
     \<lparr>signal_at = Never, db_fault = (\<lambda>k. None), http = (\<lambda>b a. Response 200 ''''),
      float_round = (\<lambda>x. x), random = (\<lambda>b a. 0), completion = [0, 1, 2]\<rparr>"

text \<open>The same world, but the deletion script fails on the second chunk.\<close>

definition deadlock_world :: world where
  "deadlock_world =
     quiet_world\<lparr>db_fault := (\<lambda>k. if k = 1 then Some (RunSql, ''deadlock'') else None)\<rparr>"

text \<open>The options of the client after the defaults are filled in (lines 31 to 35).\<close>

definition batchSize_of :: "AmplitudeOptions \<Rightarrow> enat" where
  "batchSize_of options = (case batchSize options of None \<Rightarrow> 300 | Some b \<Rightarrow> b)"

definition concurrentBatches_of :: "AmplitudeOptions \<Rightarrow> enat" where
  "concurrentBatches_of options = (case concurrentBatches options of None \<Rightarrow> 4 | Some c \<Rightarrow> c)"

definition maxAttempts_of :: "AmplitudeOptions \<Rightarrow> nat" where
  "maxAttempts_of options = (case maxAttempts options of None \<Rightarrow> 5 | Some m \<Rightarrow> m)"

text \<open>
  Options and a service for the examples of the client: batches of two, one at a time,
  two attempts; the service answers every attempt of the first batch with a 503 and
  accepts every other batch.
\<close>

definition example_options :: AmplitudeOptions where
  "example_options = \<lparr>batchSize = Some 2, concurrentBatches = Some 1, maxAttempts = Some 2\<rparr>"

definition busy_first_batch :: "nat \<Rightarrow> nat \<Rightarrow> http_outcome" where
  "busy_first_batch b a = (if b = 0 then Response 503 ''busy'' else Response 200 [])"

text \<open>
  The sizes main passes on (lines 328 and 347 to 351): the environment's numbers, or the
  defaults.
\<close>

definition db_chunk_size :: "env \<Rightarrow> enat" where
  "db_chunk_size e = (case DB_CHUNK_SIZE e of None \<Rightarrow> \<infinity> | Some n \<Rightarrow> n)"

definition amp_options :: "env \<Rightarrow> AmplitudeOptions" where
  "amp_options e =
     \<lparr>batchSize = Some (case AMP_BATCH_SIZE e of None \<Rightarrow> 300 | Some n \<Rightarrow> n),
      concurrentBatches = Some (case AMP_CONCURRENCY e of None \<Rightarrow> 4 | Some n \<Rightarrow> n),
      maxAttempts = Some (case AMP_MAX_ATTEMPTS e of None \<Rightarrow> 5 | Some n \<Rightarrow> n)\<rparr>"

text \<open>The quiet world, but the service rejects the second batch with a 400.\<close>

definition rejecting_world :: world where
  "rejecting_world =
     quiet_world\<lparr>http := (\<lambda>b a. if b = 1 then Response 400 ''bad request'' else Response 200 [])\<rparr>"

text \<open>
  A service that answers every attempt with a 503, and a source of random numbers that
  yields 1/2 for attempt 4 and 0 otherwise. All numbers of this run are natural numbers,
  which no rounding changes.
\<close>

definition always_busy :: "nat \<Rightarrow> http_outcome" where
  "always_busy a = Response 503 ''busy''"

definition falling_jitter :: "nat \<Rightarrow> real" where
  "falling_jitter a = (if a = 4 then 1 / 2 else 0)"

text \<open>What the example run leaves behind when nothing fails.\<close>

definition all_ok :: "AmplitudeResult list" where
  "all_ok = map (\<lambda>i. \<lparr>id' = i, ok = True, error = None\<rparr>) [''u1'', ''u2'', ''u3'', ''u4'', ''u5'']"

definition all_committed :: db_state where
  "all_committed =
     \<lparr>trace = concat (map committed_events [[''u1'', ''u2''], [''u3'', ''u4''], [''u5'']]) @ [EvPoolEnd],
      committed = [[''u1'', ''u2''], [''u3'', ''u4''], [''u5'']]\<rparr>"

section \<open>The loader removes duplicates\<close>

lemma set_add_all_distinct: "distinct acc \<Longrightarrow> distinct (set_add_all acc xs)"
  by (induction xs arbitrary: acc) auto

lemma set_add_all_set: "set (set_add_all acc xs) = set acc \<union> set xs"
  by (induction xs arbitrary: acc) auto

lemma set_add_all_length: "length (set_add_all acc xs) \<le> length acc + length xs"
proof (induction xs arbitrary: acc)
  case Nil
  show ?case by simp
next
  case (Cons x xs)
  have "length (set_add_all (if x \<in> set acc then acc else acc @ [x]) xs)
          \<le> length (if x \<in> set acc then acc else acc @ [x]) + length xs"
    by (rule Cons.IH)
  also have "\<dots> \<le> length acc + length (x # xs)"
    by simp
  finally show ?case by simp
qed

lemma dedupe_distinct: "distinct (dedupe xs)"
  by (simp add: dedupe_def set_add_all_distinct)

lemma dedupe_set: "set (dedupe xs) = set xs"
  by (simp add: dedupe_def set_add_all_set)

lemma dedupe_length: "length (dedupe xs) \<le> length xs"
  using set_add_all_length [of "[]" xs] by (simp add: dedupe_def)

lemma load_ids_array:
  "parsedIds \<noteq> [] \<Longrightarrow>
   load_ids (JsonArray parsedIds) =
     Inr \<lparr>allIds = dedupe parsedIds, totalIds = length parsedIds,
          uniqueIds = length (dedupe parsedIds)\<rparr>"
  by (simp add: load_ids_def Let_def)

text \<open>
  Claim C9. For every non-empty input list the loader returns the deduplicated
  identifiers: they hold no element twice, they are the elements of the input, and their
  number, which is the report's unique count, is at most the length of the input. On the
  input u1, u2, u1 the identifiers are u1, u2 and the unique count is 2.
\<close>

theorem loader_deduplicates:
  "(parsedIds \<noteq> [] \<longrightarrow>
      load_ids (JsonArray parsedIds) =
        Inr \<lparr>allIds = dedupe parsedIds, totalIds = length parsedIds,
             uniqueIds = length (dedupe parsedIds)\<rparr>
      \<and> distinct (dedupe parsedIds)
      \<and> set (dedupe parsedIds) = set parsedIds
      \<and> length (dedupe parsedIds) \<le> length parsedIds)
   \<and> load_ids (JsonArray [''u1'', ''u2'', ''u1'']) =
        Inr \<lparr>allIds = [''u1'', ''u2''], totalIds = 3, uniqueIds = 2\<rparr>"
proof -
  have "load_ids (JsonArray [''u1'', ''u2'', ''u1'']) =
          Inr \<lparr>allIds = [''u1'', ''u2''], totalIds = 3, uniqueIds = 2\<rparr>"
    by (simp add: load_ids_def dedupe_def)
  then show ?thesis
    by (simp add: load_ids_array dedupe_distinct dedupe_set dedupe_length)
qed

theorem loader_deduplicates_witness:
  "[''a'', ''b'', ''a'', ''a''] \<noteq> ([] :: string list)
   \<and> load_ids (JsonArray [''a'', ''b'', ''a'', ''a'']) =
       Inr \<lparr>allIds = [''a'', ''b''], totalIds = 4, uniqueIds = 2\<rparr>
   \<and> distinct (dedupe [''a'', ''b'', ''a'', ''a''])
   \<and> length (dedupe [''a'', ''b'', ''a'', ''a'']) \<le> 4"
  using loader_deduplicates [of "[''a'', ''b'', ''a'', ''a'']"]
  by (simp add: dedupe_def)

section \<open>Both loops cut the identifiers into the same pieces\<close>

declare pieces.simps [simp del]

lemma pieces_Nil [simp]: "pieces c [] = []"
  by (simp add: pieces.simps)

lemma pieces_step: "0 < c \<Longrightarrow> xs \<noteq> [] \<Longrightarrow> pieces c xs = take c xs # pieces c (drop c xs)"
  by (subst pieces.simps) simp

lemma concat_pieces: "0 < c \<Longrightarrow> concat (pieces c xs) = xs"
proof (induction c xs rule: pieces.induct)
  case (1 c xs)
  show ?case
  proof (cases "xs = []")
    case True
    then show ?thesis by simp
  next
    case False
    with 1 show ?thesis by (simp add: pieces_step)
  qed
qed

lemma pieces_bounds: "0 < c \<Longrightarrow> p \<in> set (pieces c xs) \<Longrightarrow> p \<noteq> [] \<and> length p \<le> c"
proof (induction c xs rule: pieces.induct)
  case (1 c xs)
  show ?case
  proof (cases "xs = []")
    case True
    with 1 show ?thesis by simp
  next
    case False
    with 1 show ?thesis by (auto simp: pieces_step)
  qed
qed

lemma slice_enat: "slice xs (enat s) (enat (s + c)) = take c (drop s xs)"
  by (simp add: slice_def)

lemma batch_loop_enat:
  "0 < c \<Longrightarrow> batch_loop ids (enat c) (enat s) acc = Some (acc @ pieces c (drop s ids))"
proof (induction "length ids - s" arbitrary: s acc rule: less_induct)
  case less
  show ?case
  proof (cases "s < length ids")
    case True
    have "batch_loop ids (enat c) (enat s) acc
            = batch_loop ids (enat c) (enat (s + c)) (acc @ [take c (drop s ids)])"
      using True by (subst batch_loop.simps) (simp add: slice_enat)
    also have "\<dots> = Some ((acc @ [take c (drop s ids)]) @ pieces c (drop (s + c) ids))"
      using less.prems True by (intro less.hyps) auto
    finally have run: "batch_loop ids (enat c) (enat s) acc
            = Some ((acc @ [take c (drop s ids)]) @ pieces c (drop (s + c) ids))" .
    have "pieces c (drop s ids) = take c (drop s ids) # pieces c (drop (s + c) ids)"
      using less.prems True by (subst pieces_step) (simp_all add: add.commute)
    with run show ?thesis by simp
  next
    case False
    then show ?thesis by (subst batch_loop.simps) simp
  qed
qed

lemma batch_loop_infinity:
  "batch_loop ids \<infinity> 0 acc = Some (acc @ (if ids = [] then [] else [ids]))"
proof (cases "ids = []")
  case True
  then show ?thesis by (subst batch_loop.simps) (simp add: zero_enat_def)
next
  case False
  have "batch_loop ids \<infinity> 0 acc = batch_loop ids \<infinity> \<infinity> (acc @ [ids])"
    using False by (subst batch_loop.simps) (simp add: zero_enat_def slice_def)
  also have "\<dots> = Some (acc @ [ids])"
    by (subst batch_loop.simps) simp
  finally show ?thesis using False by simp
qed

lemma batch_loop_partition:
  "C \<noteq> 0 \<Longrightarrow> batch_loop ids C 0 [] = Some (partition_of C ids)"
proof (cases C)
  case (enat c)
  assume "C \<noteq> 0"
  with enat have "0 < c" by (simp add: zero_enat_def)
  then show ?thesis
    using batch_loop_enat [of c ids 0 "[]"] enat by (simp add: partition_of_def zero_enat_def)
next
  case infinity
  then show ?thesis by (simp add: batch_loop_infinity partition_of_def)
qed

lemma chunk_loop_enat:
  "0 < c \<Longrightarrow> chunk_loop fault (enat c) ids (enat s) k st
                = Some (run_chunks fault (pieces c (drop s ids)) k st)"
proof (induction "length ids - s" arbitrary: s k st rule: less_induct)
  case less
  show ?case
  proof (cases "s < length ids")
    case True
    have step: "pieces c (drop s ids) = take c (drop s ids) # pieces c (drop (s + c) ids)"
      using less.prems True by (subst pieces_step) (simp_all add: add.commute)
    obtain r st1 where pc: "process_chunk (fault k) (take c (drop s ids)) st = (r, st1)"
      by (cases "process_chunk (fault k) (take c (drop s ids)) st")
    show ?thesis
    proof (cases r)
      case None
      have "chunk_loop fault (enat c) ids (enat s) k st
              = chunk_loop fault (enat c) ids (enat (s + c)) (Suc k) st1"
        using True pc None by (subst chunk_loop.simps) (simp add: slice_enat)
      also have "\<dots> = Some (run_chunks fault (pieces c (drop (s + c) ids)) (Suc k) st1)"
        using less.prems True by (intro less.hyps) auto
      finally show ?thesis using pc None by (simp add: step)
    next
      case (Some e)
      then show ?thesis
        using True pc by (subst chunk_loop.simps) (simp add: slice_enat step)
    qed
  next
    case False
    then show ?thesis by (subst chunk_loop.simps) simp
  qed
qed

lemma chunk_loop_infinity:
  "chunk_loop fault \<infinity> ids 0 k st
     = Some (run_chunks fault (if ids = [] then [] else [ids]) k st)"
proof (cases "ids = []")
  case True
  then show ?thesis by (subst chunk_loop.simps) (simp add: zero_enat_def)
next
  case False
  obtain r st1 where pc: "process_chunk (fault k) ids st = (r, st1)"
    by (cases "process_chunk (fault k) ids st")
  have last: "chunk_loop fault \<infinity> ids \<infinity> (Suc k) st1 = Some (None, st1)"
    by (subst chunk_loop.simps) simp
  show ?thesis
    using False pc last
    by (subst chunk_loop.simps) (simp add: zero_enat_def slice_def split: option.splits)
qed

lemma chunk_loop_partition:
  "C \<noteq> 0 \<Longrightarrow> chunk_loop fault C ids 0 k st = Some (run_chunks fault (partition_of C ids) k st)"
proof (cases C)
  case (enat c)
  assume "C \<noteq> 0"
  with enat have "0 < c" by (simp add: zero_enat_def)
  then show ?thesis
    using chunk_loop_enat [of c fault ids 0 k st] enat by (simp add: partition_of_def zero_enat_def)
next
  case infinity
  then show ?thesis by (simp add: chunk_loop_infinity partition_of_def)
qed

lemma engine_partition:
  "C \<noteq> 0 \<Longrightarrow>
   runGdprSqlWithTempTable fault C ids =
     Some (case run_chunks fault (partition_of C ids) 0 \<lparr>trace = [], committed = []\<rparr> of
             (r, st) \<Rightarrow> (r, issue EvPoolEnd st))"
  by (simp add: runGdprSqlWithTempTable_def chunk_loop_partition)

lemma partition_of_concat: "C \<noteq> 0 \<Longrightarrow> concat (partition_of C xs) = xs"
  by (cases C) (simp_all add: partition_of_def concat_pieces zero_enat_def)

lemma partition_of_bounds:
  "C \<noteq> 0 \<Longrightarrow> p \<in> set (partition_of C xs) \<Longrightarrow> p \<noteq> [] \<and> enat (length p) \<le> C"
  by (cases C) (auto simp: partition_of_def zero_enat_def dest: pieces_bounds split: if_splits)

lemma nth_subset_concat:
  assumes "i < length xss"
  shows "set (xss ! i) \<subseteq> set (concat xss)"
proof -
  have "xss ! i \<in> set xss"
    using assms by simp
  then show ?thesis
    by auto
qed

lemma distinct_concat_disjoint:
  "distinct (concat xss) \<Longrightarrow> i < length xss \<Longrightarrow> j < length xss \<Longrightarrow> i \<noteq> j \<Longrightarrow>
   set (xss ! i) \<inter> set (xss ! j) = {}"
proof (induction xss arbitrary: i j)
  case Nil
  then show ?case by simp
next
  case (Cons xs xss)
  from Cons.prems(1) have d: "distinct (concat xss)" and x: "set xs \<inter> set (concat xss) = {}"
    by simp_all
  show ?case
  proof (cases i)
    case 0
    with Cons.prems obtain j' where j: "j = Suc j'" "j' < length xss"
      by (cases j) auto
    then have "set (xss ! j') \<subseteq> set (concat xss)"
      by (intro nth_subset_concat)
    with x 0 j show ?thesis by auto
  next
    case (Suc i')
    show ?thesis
    proof (cases j)
      case 0
      from Suc Cons.prems have "set (xss ! i') \<subseteq> set (concat xss)"
        by (intro nth_subset_concat) simp
      with x 0 Suc show ?thesis by auto
    next
      case (Suc j')
      with \<open>i = Suc i'\<close> Cons.prems Cons.IH [OF d, of i' j'] show ?thesis by simp
    qed
  qed
qed

lemma distinct_concat_nth: "distinct (concat xss) \<Longrightarrow> i < length xss \<Longrightarrow> distinct (xss ! i)"
  by (simp add: distinct_concat_iff)

lemma process_chunk_ok:
  "process_chunk None sl st =
     (None, \<lparr>trace = trace st @ committed_events sl, committed = committed st @ [sl]\<rparr>)"
  by (simp add: process_chunk_def issue_def committed_events_def)

lemma run_chunks_ok:
  "(\<And>j. j < length sls \<Longrightarrow> fault (k + j) = None) \<Longrightarrow>
   run_chunks fault sls k st =
     (None, \<lparr>trace = trace st @ concat (map committed_events sls),
             committed = committed st @ sls\<rparr>)"
proof (induction sls arbitrary: k st)
  case Nil
  show ?case by simp
next
  case (Cons sl sls)
  have "fault k = None"
    using Cons.prems [of 0] by simp
  moreover have "\<And>j. j < length sls \<Longrightarrow> fault (Suc k + j) = None"
    using Cons.prems [of "Suc j" for j] by simp
  ultimately show ?case
    by (simp add: process_chunk_ok Cons.IH)
qed

lemma engine_no_fault:
  "C \<noteq> 0 \<Longrightarrow>
   runGdprSqlWithTempTable (\<lambda>k. None) C ids =
     Some (None, \<lparr>trace = concat (map committed_events (partition_of C ids)) @ [EvPoolEnd],
                  committed = partition_of C ids\<rparr>)"
  by (simp add: engine_partition run_chunks_ok issue_def)

text \<open>
  Claim C8. For every list of distinct identifiers and every size \<open>C \<ge> 1\<close> (a positive
  integer or unbounded), the batching loop of the external client returns, and the
  relational engine, when no statement fails, commits, the same list of pieces. Every
  piece is non-empty and has at most \<open>C\<close> elements, the pieces in order make up the
  identifier list, their union is the set of identifiers, and any two of them are
  disjoint.
\<close>

theorem partition_is_exact:
  assumes "1 \<le> C" and "distinct ids"
  shows "batch_loop ids C 0 [] = Some (partition_of C ids)
       \<and> runGdprSqlWithTempTable (\<lambda>k. None) C ids =
           Some (None, \<lparr>trace = concat (map committed_events (partition_of C ids)) @ [EvPoolEnd],
                        committed = partition_of C ids\<rparr>)
       \<and> (\<forall>p \<in> set (partition_of C ids). p \<noteq> [] \<and> enat (length p) \<le> C)
       \<and> concat (partition_of C ids) = ids
       \<and> \<Union> (set ` set (partition_of C ids)) = set ids
       \<and> (\<forall>i < length (partition_of C ids). \<forall>j < length (partition_of C ids).
            i \<noteq> j \<longrightarrow> set (partition_of C ids ! i) \<inter> set (partition_of C ids ! j) = {})"
proof -
  from assms(1) have C: "C \<noteq> 0"
    by auto
  have whole: "concat (partition_of C ids) = ids"
    using C by (rule partition_of_concat)
  have "\<Union> (set ` set (partition_of C ids)) = set (concat (partition_of C ids))"
    by simp
  also have "\<dots> = set ids"
    using whole by (rule arg_cong)
  finally have cover: "\<Union> (set ` set (partition_of C ids)) = set ids" .
  have sizes: "\<forall>p \<in> set (partition_of C ids). p \<noteq> [] \<and> enat (length p) \<le> C"
    using partition_of_bounds [OF C] by blast
  have "distinct (concat (partition_of C ids))"
    using whole assms(2) by simp
  then have disjoint: "\<forall>i < length (partition_of C ids). \<forall>j < length (partition_of C ids).
            i \<noteq> j \<longrightarrow> set (partition_of C ids ! i) \<inter> set (partition_of C ids ! j) = {}"
    using distinct_concat_disjoint by blast
  show ?thesis
    using whole cover sizes disjoint batch_loop_partition [OF C, of ids]
      engine_no_fault [OF C, of ids]
    by blast
qed

theorem partition_is_exact_witness:
  "(1::enat) \<le> 2 \<and> distinct [''a'', ''b'', ''c'']
   \<and> batch_loop [''a'', ''b'', ''c''] 2 0 [] = Some [[''a'', ''b''], [''c'']]
   \<and> map_option (\<lambda>(r, st). committed st)
        (runGdprSqlWithTempTable (\<lambda>k. None) 2 [''a'', ''b'', ''c'']) = Some [[''a'', ''b''], [''c'']]"
proof -
  have p: "partition_of 2 [''a'', ''b'', ''c''] = [[''a'', ''b''], [''c'']]"
    by (simp add: partition_of_def numeral_eq_enat pieces.simps)
  have h1: "(1::enat) \<le> 2" by simp
  have h2: "distinct [''a'', ''b'', ''c'']" by simp
  show ?thesis
    using partition_is_exact [OF h1 h2] by (simp add: p)
qed

section \<open>A failing chunk ends the relational stage and the run\<close>

lemma process_chunk_fail:
  "s \<noteq> Connect \<Longrightarrow>
   process_chunk (Some (s, msg)) sl st =
     (Some (s, msg),
      \<lparr>trace = trace st @ [EvConnect] @ events_through s sl @ [EvRollback, EvRelease],
       committed = committed st\<rparr>)"
  by (cases s) (simp_all add: process_chunk_def issue_def)

lemma run_chunks_fail:
  "n < length sls \<Longrightarrow> (\<And>j. j < n \<Longrightarrow> fault (k + j) = None) \<Longrightarrow> fault (k + n) = Some (s, msg) \<Longrightarrow>
   s \<noteq> Connect \<Longrightarrow>
   run_chunks fault sls k st =
     (Some (s, msg),
      \<lparr>trace = trace st @ concat (map committed_events (take n sls))
                 @ [EvConnect] @ events_through s (sls ! n) @ [EvRollback, EvRelease],
       committed = committed st @ take n sls\<rparr>)"
proof (induction sls arbitrary: n k st)
  case Nil
  then show ?case by simp
next
  case (Cons sl sls)
  show ?case
  proof (cases n)
    case 0
    with Cons.prems show ?thesis by (simp add: process_chunk_fail)
  next
    case (Suc m)
    have "fault k = None"
      using Cons.prems(2) [of 0] Suc by simp
    moreover have "\<And>j. j < m \<Longrightarrow> fault (Suc k + j) = None"
      using Cons.prems(2) [of "Suc j" for j] Suc by simp
    moreover have "fault (Suc k + m) = Some (s, msg)"
      using Cons.prems(3) Suc by simp
    moreover have "m < length sls"
      using Cons.prems(1) Suc by simp
    ultimately show ?thesis
      using Cons.prems(4) Suc by (simp add: process_chunk_ok Cons.IH)
  qed
qed

text \<open>
  Claim C3. Let the chunk size be at least 1, let chunk \<open>k\<close> exist, let no statement of
  an earlier chunk fail, and let a statement \<open>s\<close> of chunk \<open>k\<close> throw (begin, creation
  of the staging table, bulk load, reading or running the deletion script, or commit).
  Then the engine throws that error. Its trace is: the complete transactions of the
  chunks before \<open>k\<close>; the statements of chunk \<open>k\<close> up to \<open>s\<close>; a rollback, the release
  of the client and the end of the pool. Nothing of a later chunk is issued. The
  committed chunks are exactly the chunks before \<open>k\<close>.
\<close>

theorem failing_chunk_aborts:
  assumes "C \<noteq> 0"
    and "k < length (partition_of C ids)"
    and "\<forall>j<k. fault j = None"
    and "fault k = Some (s, msg)"
    and "s \<noteq> Connect"
  shows "runGdprSqlWithTempTable fault C ids =
           Some (Some (s, msg),
                 \<lparr>trace = concat (map committed_events (take k (partition_of C ids)))
                            @ [EvConnect] @ events_through s (partition_of C ids ! k)
                            @ [EvRollback, EvRelease, EvPoolEnd],
                  committed = take k (partition_of C ids)\<rparr>)"
proof -
  have "run_chunks fault (partition_of C ids) 0 \<lparr>trace = [], committed = []\<rparr> =
          (Some (s, msg),
           \<lparr>trace = trace \<lparr>trace = [], committed = []\<rparr>
                      @ concat (map committed_events (take k (partition_of C ids)))
                      @ [EvConnect] @ events_through s (partition_of C ids ! k)
                      @ [EvRollback, EvRelease],
            committed = committed \<lparr>trace = [], committed = []\<rparr> @ take k (partition_of C ids)\<rparr>)"
    using assms by (intro run_chunks_fail) auto
  then show ?thesis
    using assms(1) by (simp add: engine_partition issue_def)
qed

theorem failing_chunk_aborts_witness:
  "runGdprSqlWithTempTable (\<lambda>j. if j = 1 then Some (RunSql, ''deadlock'') else None) 2
       [''u1'', ''u2'', ''u3'', ''u4'', ''u5''] =
     Some (Some (RunSql, ''deadlock''),
           \<lparr>trace = [EvConnect, EvBegin, EvCreateTemp, EvBulkLoad [''u1'', ''u2''], EvReadSql,
                     EvRunSql, EvCommit, EvRelease,
                     EvConnect, EvBegin, EvCreateTemp, EvBulkLoad [''u3'', ''u4''], EvReadSql,
                     EvRunSql, EvRollback, EvRelease, EvPoolEnd],
            committed = [[''u1'', ''u2'']]\<rparr>)"
proof -
  have p: "partition_of 2 [''u1'', ''u2'', ''u3'', ''u4'', ''u5'']
             = [[''u1'', ''u2''], [''u3'', ''u4''], [''u5'']]"
    by (simp add: partition_of_def numeral_eq_enat pieces.simps)
  show ?thesis
    using failing_chunk_aborts [of 2 1 "[''u1'', ''u2'', ''u3'', ''u4'', ''u5'']"
        "\<lambda>j. if j = 1 then Some (RunSql, ''deadlock'') else None" RunSql "''deadlock''"]
    by (simp add: p committed_events_def)
qed

lemma example_ids:
  "load_ids (IDS_JSON_content example_env) =
     Inr \<lparr>allIds = [''u1'', ''u2'', ''u3'', ''u4'', ''u5''], totalIds = 5, uniqueIds = 5\<rparr>"
  by (simp add: example_env_def load_ids_def dedupe_def)

lemma example_partition:
  "partition_of 2 [''u1'', ''u2'', ''u3'', ''u4'', ''u5'']
     = [[''u1'', ''u2''], [''u3'', ''u4''], [''u5'']]"
  by (simp add: partition_of_def numeral_eq_enat pieces.simps)

text \<open>
  Claim C2. Whenever the coordinator reaches the relational engine and the engine throws,
  the run ends in the fatal path: the exit code is 1, the report records the relational
  stage as failed with the error's message, the summary is the failure summary, and the
  external client has not been invoked: no entry, no request, no delay.
\<close>

theorem relational_failure_is_fatal:
  assumes "requireEnv ''DB_URL'' (DB_URL e) = Inr dbUrl"
    and "requireEnv ''AMPLITUDE_KEY'' (AMPLITUDE_KEY e) = Inr amplitudeKey"
    and "load_ids (IDS_JSON_content e) = Inr l"
    and "signal_at w \<noteq> BeforeDatabase"
    and "runGdprSqlWithTempTable (db_fault w)
           (case DB_CHUNK_SIZE e of None \<Rightarrow> \<infinity> | Some n \<Rightarrow> n) (allIds l) = Some (Some err, d)"
  shows "main e w =
           Some \<lparr>exit_code = 1,
                 report_json =
                   Some \<lparr>dryRun = (DRY_RUN e = Some ''true''),
                         input_totalIds = totalIds l, input_uniqueIds = uniqueIds l,
                         database_status = Failed, database_error = Some (snd err),
                         amplitude_successful = 0, amplitude_failed = 0,
                         amplitude_results = []\<rparr>,
                 summary_txt = DeletionFailed (''Database deletion failed: '' @ snd err),
                 db = d,
                 amp = \<lparr>results = [], calls = [], sleeps = []\<rparr>\<rparr>"
  using assms by (simp add: main_def Let_def fatal_def)

theorem relational_failure_is_fatal_witness:
  "main example_env deadlock_world =
     Some \<lparr>exit_code = 1,
           report_json =
             Some \<lparr>dryRun = False, input_totalIds = 5, input_uniqueIds = 5,
                   database_status = Failed, database_error = Some ''deadlock'',
                   amplitude_successful = 0, amplitude_failed = 0, amplitude_results = []\<rparr>,
           summary_txt = DeletionFailed ''Database deletion failed: deadlock'',
           db = \<lparr>trace = [EvConnect, EvBegin, EvCreateTemp, EvBulkLoad [''u1'', ''u2''], EvReadSql,
                     EvRunSql, EvCommit, EvRelease,
                     EvConnect, EvBegin, EvCreateTemp, EvBulkLoad [''u3'', ''u4''], EvReadSql,
                     EvRunSql, EvRollback, EvRelease, EvPoolEnd],
                  committed = [[''u1'', ''u2'']]\<rparr>,
           amp = \<lparr>results = [], calls = [], sleeps = []\<rparr>\<rparr>"
proof -
  have h1: "requireEnv ''DB_URL'' (DB_URL example_env) = Inr ''postgres://db''"
    by (simp add: requireEnv_def example_env_def)
  have h2: "requireEnv ''AMPLITUDE_KEY'' (AMPLITUDE_KEY example_env) = Inr ''key''"
    by (simp add: requireEnv_def example_env_def)
  have h4: "signal_at deadlock_world \<noteq> BeforeDatabase"
    by (simp add: deadlock_world_def quiet_world_def)
  have h5: "runGdprSqlWithTempTable (db_fault deadlock_world)
           (case DB_CHUNK_SIZE example_env of None \<Rightarrow> \<infinity> | Some n \<Rightarrow> n)
           (allIds \<lparr>allIds = [''u1'', ''u2'', ''u3'', ''u4'', ''u5''], totalIds = 5, uniqueIds = 5\<rparr>)
         = Some (Some (RunSql, ''deadlock''),
             \<lparr>trace = [EvConnect, EvBegin, EvCreateTemp, EvBulkLoad [''u1'', ''u2''], EvReadSql,
                     EvRunSql, EvCommit, EvRelease,
                     EvConnect, EvBegin, EvCreateTemp, EvBulkLoad [''u3'', ''u4''], EvReadSql,
                     EvRunSql, EvRollback, EvRelease, EvPoolEnd],
                  committed = [[''u1'', ''u2'']]\<rparr>)"
    by (simp add: deadlock_world_def quiet_world_def example_env_def engine_partition
          example_partition process_chunk_def issue_def)
  show ?thesis
    using relational_failure_is_fatal [OF h1 h2 example_ids h4 h5]
    by (simp add: example_env_def)
qed

section \<open>One batch of the external client\<close>

declare attempt_loop.simps [simp del]

lemma loop_end:
  "\<not> a < ma \<Longrightarrow> attempt_loop resp fl rnd ma idx chunk a st = (False, st)"
  by (subst attempt_loop.simps) simp

lemma loop_ok:
  "a < ma \<Longrightarrow> try_body (resp a) = ReturnOk \<Longrightarrow>
   attempt_loop resp fl rnd ma idx chunk a st =
     (True, push_all (\<lambda>i. \<lparr>id' = i, ok = True, error = None\<rparr>) chunk (record_call idx a st))"
  by (subst attempt_loop.simps) (simp add: Let_def record_call_def)

lemma loop_failed:
  "a < ma \<Longrightarrow> try_body (resp a) = ReturnFailed msg \<Longrightarrow>
   attempt_loop resp fl rnd ma idx chunk a st =
     (True, push_all (\<lambda>i. \<lparr>id' = i, ok = False, error = Some msg\<rparr>) chunk (record_call idx a st))"
  by (subst attempt_loop.simps) (simp add: Let_def record_call_def)

lemma loop_server:
  "a < ma \<Longrightarrow> try_body (resp a) = ServerError \<Longrightarrow>
   attempt_loop resp fl rnd ma idx chunk a st =
     attempt_loop resp fl rnd ma idx chunk (Suc a)
       (sleep idx (calculateBackoff fl a default_baseMs default_capMs (rnd a)) (record_call idx a st))"
  by (subst attempt_loop.simps) (simp add: Let_def record_call_def)

lemma loop_caught:
  "Suc a < ma \<Longrightarrow> try_body (resp a) = Caught err \<Longrightarrow>
   attempt_loop resp fl rnd ma idx chunk a st =
     attempt_loop resp fl rnd ma idx chunk (Suc a)
       (sleep idx (calculateBackoff fl a default_baseMs default_capMs (rnd a)) (record_call idx a st))"
proof -
  assume a: "Suc a < ma" and c: "try_body (resp a) = Caught err"
  from a have n: "a \<noteq> ma - 1" and l: "a < ma" by arith+
  show ?thesis
    by (subst attempt_loop.simps)
       (simp only: l c n Let_def record_call_def if_True if_False try_outcome.case)
qed

lemma loop_caught_last:
  "Suc a = ma \<Longrightarrow> try_body (resp a) = Caught err \<Longrightarrow>
   attempt_loop resp fl rnd ma idx chunk a st =
     (False,
      push_all (\<lambda>i. \<lparr>id' = i, ok = False,
                      error = Some (''Network error after '' @ show_nat ma @ '' attempts: '' @ err)\<rparr>)
        chunk (record_call idx a st))"
proof -
  assume a: "Suc a = ma" and c: "try_body (resp a) = Caught err"
  from a have n: "(a = ma - 1) = True" and l: "a < ma" and e: "\<not> Suc a < ma" by arith+
  have "attempt_loop resp fl rnd ma idx chunk a st =
          attempt_loop resp fl rnd ma idx chunk (Suc a)
            (push_all (\<lambda>i. \<lparr>id' = i, ok = False,
                      error = Some (''Network error after '' @ show_nat ma @ '' attempts: '' @ err)\<rparr>)
               chunk (record_call idx a st))"
    by (subst attempt_loop.simps)
       (simp only: l c n Let_def record_call_def if_True if_False try_outcome.case)
  then show ?thesis
    by (simp only: loop_end [OF e])
qed

lemma amp_append_empty [simp]: "amp_append st amp_empty = st" "amp_append amp_empty st = st"
  by (simp_all add: amp_append_def amp_empty_def)

lemma results_amp_append [simp]: "results (amp_append st d) = results st @ results d"
  by (simp add: amp_append_def)

lemma push_all_append: "push_all mk chunk (amp_append st d) = amp_append st (push_all mk chunk d)"
  by (simp add: push_all_def amp_append_def)

lemma sleep_append: "sleep idx ms (amp_append st d) = amp_append st (sleep idx ms d)"
  by (simp add: sleep_def amp_append_def)

lemma record_call_append: "record_call idx a (amp_append st d) = amp_append st (record_call idx a d)"
  by (simp add: record_call_def amp_append_def)

text \<open>The attempt loop only appends to the state it is given.\<close>

lemma attempt_loop_append:
  "attempt_loop resp fl rnd ma idx chunk a (amp_append st d) =
     (fst (attempt_loop resp fl rnd ma idx chunk a d),
      amp_append st (snd (attempt_loop resp fl rnd ma idx chunk a d)))"
proof (induction "ma - a" arbitrary: a d rule: less_induct)
  case less
  show ?case
  proof (cases "a < ma")
    case False
    then show ?thesis
      by (simp add: loop_end)
  next
    case True
    then have IH: "\<And>d'. attempt_loop resp fl rnd ma idx chunk (Suc a) (amp_append st d') =
        (fst (attempt_loop resp fl rnd ma idx chunk (Suc a) d'),
         amp_append st (snd (attempt_loop resp fl rnd ma idx chunk (Suc a) d')))"
      by (intro less.hyps) auto
    show ?thesis
    proof (cases "try_body (resp a)")
      case ReturnOk
      then show ?thesis
        using True by (simp add: loop_ok push_all_append record_call_append)
    next
      case (ReturnFailed msg)
      then show ?thesis
        using True by (simp add: loop_failed push_all_append record_call_append)
    next
      case ServerError
      then show ?thesis
        using True
        by (simp only: loop_server [where resp = resp and a = a, OF True ServerError]
              sleep_append record_call_append IH)
    next
      case (Caught err)
      show ?thesis
      proof (cases "Suc a = ma")
        case last: True
        show ?thesis
          by (simp add: loop_caught_last [where resp = resp and a = a, OF last Caught]
                push_all_append record_call_append)
      next
        case False
        with True have more: "Suc a < ma" by arith
        show ?thesis
          by (simp only: loop_caught [where resp = resp and a = a, OF more Caught]
                sleep_append record_call_append IH)
      qed
    qed
  qed
qed

lemma exhausted_calls [simp]: "calls (exhausted chunk st) = calls st"
  by (induction chunk arbitrary: st) (simp_all add: push_all_def)

lemma exhausted_sleeps [simp]: "sleeps (exhausted chunk st) = sleeps st"
  by (induction chunk arbitrary: st) (simp_all add: push_all_def)

lemma find_append_None:
  "i \<notin> id' ` set xs \<Longrightarrow>
   (find (\<lambda>r. id' r = i) (xs @ ys) = None) = (find (\<lambda>r. id' r = i) ys = None)"
  by (auto simp: find_None_iff)

lemma exhausted_append:
  "\<forall>i \<in> set chunk. i \<notin> id' ` set (results st) \<Longrightarrow>
   exhausted chunk (amp_append st d) = amp_append st (exhausted chunk d)"
proof (induction chunk arbitrary: d)
  case Nil
  show ?case by simp
next
  case (Cons i chunk)
  have f: "(find (\<lambda>r. id' r = i) (results (amp_append st d)) = None)
             = (find (\<lambda>r. id' r = i) (results d) = None)"
    using Cons.prems by (simp add: amp_append_def find_append_None)
  have rest: "\<forall>i \<in> set chunk. i \<notin> id' ` set (results st)"
    using Cons.prems by simp
  show ?case
    by (simp only: exhausted.simps f push_all_append Cons.IH [OF rest]
          if_distrib [of "amp_append st"] if_distrib [of "exhausted chunk"])
qed

text \<open>
  A batch that finds none of its identifiers in the shared array adds to it what it adds
  to the empty one.
\<close>

lemma run_batch_append:
  assumes "\<forall>i \<in> set chunk. i \<notin> id' ` set (results st)"
  shows "run_batch resp fl rnd ma idx chunk st = amp_append st (batch_effect resp fl rnd ma idx chunk)"
proof -
  obtain b d where loop: "attempt_loop resp fl rnd ma idx chunk 0 amp_empty = (b, d)"
    by (cases "attempt_loop resp fl rnd ma idx chunk 0 amp_empty")
  have "attempt_loop resp fl rnd ma idx chunk 0 (amp_append st amp_empty) = (b, amp_append st d)"
    by (simp only: attempt_loop_append loop fst_conv snd_conv)
  then have "attempt_loop resp fl rnd ma idx chunk 0 st = (b, amp_append st d)"
    by simp
  then show ?thesis
    using loop exhausted_append [OF assms]
    by (cases b) (simp_all add: run_batch_def batch_effect_def)
qed

lemma push_all_ids:
  "(\<And>i. id' (mk i) = i) \<Longrightarrow> map id' (results (push_all mk chunk st)) = map id' (results st) @ chunk"
  by (simp add: push_all_def comp_def)

lemma results_record_call [simp]: "results (record_call idx a st) = results st"
  by (simp add: record_call_def)

lemma results_sleep [simp]: "results (sleep idx ms st) = results st"
  by (simp add: sleep_def)

lemma attempt_loop_ids:
  "results st = [] \<Longrightarrow>
   (\<not> fst (attempt_loop resp fl rnd ma idx chunk a st)
      \<and> results (snd (attempt_loop resp fl rnd ma idx chunk a st)) = [])
   \<or> map id' (results (snd (attempt_loop resp fl rnd ma idx chunk a st))) = chunk"
proof (induction "ma - a" arbitrary: a st rule: less_induct)
  case less
  show ?case
  proof (cases "a < ma")
    case False
    then show ?thesis
      using less.prems by (simp add: loop_end)
  next
    case True
    then have IH: "\<And>st'. results st' = [] \<Longrightarrow>
       (\<not> fst (attempt_loop resp fl rnd ma idx chunk (Suc a) st')
          \<and> results (snd (attempt_loop resp fl rnd ma idx chunk (Suc a) st')) = [])
       \<or> map id' (results (snd (attempt_loop resp fl rnd ma idx chunk (Suc a) st'))) = chunk"
      by (intro less.hyps) auto
    show ?thesis
    proof (cases "try_body (resp a)")
      case ReturnOk
      then show ?thesis
        using True less.prems by (simp add: loop_ok push_all_ids)
    next
      case (ReturnFailed msg)
      then show ?thesis
        using True less.prems by (simp add: loop_failed push_all_ids)
    next
      case ServerError
      show ?thesis
        using IH [of "sleep idx (calculateBackoff fl a default_baseMs default_capMs (rnd a))
                        (record_call idx a st)"] less.prems
        by (simp add: loop_server [where resp = resp and a = a, OF True ServerError])
    next
      case (Caught err)
      show ?thesis
      proof (cases "Suc a = ma")
        case last: True
        show ?thesis
          using less.prems
          by (simp add: loop_caught_last [where resp = resp and a = a, OF last Caught] push_all_ids)
      next
        case False
        with True have more: "Suc a < ma" by arith
        show ?thesis
          using IH [of "sleep idx (calculateBackoff fl a default_baseMs default_capMs (rnd a))
                        (record_call idx a st)"] less.prems
          by (simp add: loop_caught [where resp = resp and a = a, OF more Caught])
      qed
    qed
  qed
qed

lemma exhausted_fresh:
  "distinct chunk \<Longrightarrow> \<forall>i \<in> set chunk. i \<notin> id' ` set (results st) \<Longrightarrow>
   map id' (results (exhausted chunk st)) = map id' (results st) @ chunk"
proof (induction chunk arbitrary: st)
  case Nil
  show ?case by simp
next
  case (Cons i chunk)
  have none: "find (\<lambda>r. id' r = i) (results st) = None"
    using Cons.prems(2) by (auto simp: find_None_iff)
  let ?st = "push_all (\<lambda>i. \<lparr>id' = i, ok = False, error = Some ''Retry exhausted''\<rparr>) [i] st"
  have "\<forall>j \<in> set chunk. j \<notin> id' ` set (results ?st)"
    using Cons.prems by (auto simp: push_all_def)
  moreover have "distinct chunk"
    using Cons.prems(1) by simp
  ultimately have "map id' (results (exhausted chunk ?st)) = map id' (results ?st) @ chunk"
    by (rule Cons.IH [rotated])
  then show ?case
    using none by (simp add: push_all_def)
qed

lemma exhausted_present:
  "set chunk \<subseteq> id' ` set (results st) \<Longrightarrow> exhausted chunk st = st"
proof (induction chunk arbitrary: st)
  case Nil
  show ?case by simp
next
  case (Cons i chunk)
  then have "find (\<lambda>r. id' r = i) (results st) \<noteq> None"
    by (auto simp: find_None_iff)
  then have "exhausted (i # chunk) st = exhausted chunk st"
    by auto
  also have "\<dots> = st"
    using Cons.prems by (intro Cons.IH) simp
  finally show ?case .
qed

text \<open>Whatever the responses, a batch of distinct identifiers adds one entry for each.\<close>

lemma batch_effect_ids:
  assumes "distinct chunk"
  shows "map id' (results (batch_effect resp fl rnd ma idx chunk)) = chunk"
proof -
  obtain b d where loop: "attempt_loop resp fl rnd ma idx chunk 0 amp_empty = (b, d)"
    by (cases "attempt_loop resp fl rnd ma idx chunk 0 amp_empty")
  have "results amp_empty = []"
    by (simp add: amp_empty_def)
  from attempt_loop_ids [OF this, of resp fl rnd ma idx chunk 0]
  have alt: "(\<not> b \<and> results d = []) \<or> map id' (results d) = chunk"
    by (simp add: loop)
  show ?thesis
  proof (cases b)
    case True
    with alt loop show ?thesis
      by (simp add: batch_effect_def run_batch_def)
  next
    case False
    from alt show ?thesis
    proof
      assume "\<not> b \<and> results d = []"
      then have "map id' (results (exhausted chunk d)) = map id' (results d) @ chunk"
        using assms by (intro exhausted_fresh) auto
      with \<open>\<not> b \<and> results d = []\<close> loop show ?thesis
        by (simp add: batch_effect_def run_batch_def)
    next
      assume ids: "map id' (results d) = chunk"
      have "set chunk \<subseteq> id' ` set (results d)"
        using ids by (metis set_map subset_refl)
      then have "exhausted chunk d = d"
        by (rule exhausted_present)
      with False loop ids show ?thesis
        by (simp add: batch_effect_def run_batch_def)
    qed
  qed
qed

section \<open>All batches of the external client\<close>

lemma complete_batches_effects:
  assumes "distinct (concat chunks)"
  shows "distinct order \<Longrightarrow> \<forall>b \<in> set order. b < length chunks \<Longrightarrow>
   \<forall>b \<in> set order. \<forall>i \<in> set (chunks ! b). i \<notin> id' ` set (results st) \<Longrightarrow>
   complete_batches resp fl rnd ma chunks order st =
     foldl amp_append st (map (\<lambda>b. batch_effect (resp b) fl (rnd b) ma b (chunks ! b)) order)"
proof (induction order arbitrary: st)
  case Nil
  show ?case by simp
next
  case (Cons b order)
  let ?e = "batch_effect (resp b) fl (rnd b) ma b (chunks ! b)"
  have b: "b < length chunks"
    using Cons.prems(2) by simp
  have step: "run_batch (resp b) fl (rnd b) ma b (chunks ! b) st = amp_append st ?e"
    using Cons.prems(3) by (intro run_batch_append) simp
  have ids: "map id' (results ?e) = chunks ! b"
    using assms b by (intro batch_effect_ids distinct_concat_nth)
  have fresh: "\<forall>b' \<in> set order. \<forall>i \<in> set (chunks ! b'). i \<notin> id' ` set (results (amp_append st ?e))"
  proof (intro ballI)
    fix b' i
    assume b': "b' \<in> set order" and i: "i \<in> set (chunks ! b')"
    have "b' \<noteq> b" using Cons.prems(1) b' by auto
    moreover have "b' < length chunks" using Cons.prems(2) b' by simp
    ultimately have "set (chunks ! b') \<inter> set (chunks ! b) = {}"
      using assms b by (intro distinct_concat_disjoint)
    with i have "i \<notin> set (chunks ! b)" by auto
    then have "i \<notin> id' ` set (results ?e)"
      using ids by (metis set_map)
    moreover have "i \<notin> id' ` set (results st)"
      using Cons.prems(3) b' i by simp
    ultimately show "i \<notin> id' ` set (results (amp_append st ?e))"
      by auto
  qed
  have "complete_batches resp fl rnd ma chunks (b # order) st
          = complete_batches resp fl rnd ma chunks order (amp_append st ?e)"
    using b step by simp
  also have "\<dots> = foldl amp_append (amp_append st ?e)
                      (map (\<lambda>b. batch_effect (resp b) fl (rnd b) ma b (chunks ! b)) order)"
    using Cons.prems(1,2) fresh by (intro Cons.IH) simp_all
  finally show ?case by simp
qed

lemma foldl_amp_append:
  "foldl amp_append st es =
     \<lparr>results = results st @ concat (map results es),
      calls = calls st @ concat (map calls es),
      sleeps = sleeps st @ concat (map sleeps es)\<rparr>"
  by (induction es arbitrary: st) (simp_all add: amp_append_def)

section \<open>Every identifier gets one entry\<close>

lemma admissible_perm: "admissible c n order \<Longrightarrow> mset order = mset [0..<n]"
  unfolding admissible_def by (metis mset_sort)

lemma admissible_distinct: "admissible c n order \<Longrightarrow> distinct order"
  unfolding admissible_def by (metis distinct_sort distinct_upt)

lemma admissible_set: "admissible c n order \<Longrightarrow> set order = {..<n}"
  unfolding admissible_def by (metis set_sort set_upt atLeast_upt)

lemma mset_concat_perm:
  assumes "mset order = mset [0..<length xss]"
  shows "mset (concat (map (nth xss) order)) = mset (concat xss)"
proof -
  have "mset (concat (map (nth xss) order)) = sum_mset (image_mset (\<lambda>b. mset (xss ! b)) (mset order))"
    by (simp add: mset_concat comp_def flip: sum_mset_sum_list)
  also have "\<dots> = sum_mset (image_mset (\<lambda>b. mset (xss ! b)) (mset [0..<length xss]))"
    by (simp only: assms)
  also have "\<dots> = mset (concat (map (nth xss) [0..<length xss]))"
    by (simp add: mset_concat comp_def flip: sum_mset_sum_list)
  finally show ?thesis
    by (simp add: map_nth)
qed

lemma client_effects:
  assumes "apiKey \<noteq> []" and "batchSize_of options \<noteq> 0" and "concurrentBatches_of options \<noteq> 0"
    and "distinct publicIds"
    and "admissible (concurrentBatches_of options)
           (length (partition_of (batchSize_of options) publicIds)) order"
  shows "deleteUsersAmplitude publicIds apiKey options resp fl rnd order =
           Some (None,
             foldl amp_append amp_empty
               (map (\<lambda>b. batch_effect (resp b) fl (rnd b) (maxAttempts_of options) b
                            (partition_of (batchSize_of options) publicIds ! b)) order))"
proof -
  let ?chunks = "partition_of (batchSize_of options) publicIds"
  have d: "distinct (concat ?chunks)"
    using assms(2,4) by (simp add: partition_of_concat)
  have "complete_batches resp fl rnd (maxAttempts_of options) ?chunks order amp_empty =
          foldl amp_append amp_empty
               (map (\<lambda>b. batch_effect (resp b) fl (rnd b) (maxAttempts_of options) b (?chunks ! b)) order)"
    using d admissible_distinct [OF assms(5)] admissible_set [OF assms(5)]
    by (intro complete_batches_effects) (auto simp: amp_empty_def)
  then show ?thesis
    using assms(1,2,3)
    by (simp add: deleteUsersAmplitude_def Let_def batch_loop_partition
          batchSize_of_def concurrentBatches_of_def
          maxAttempts_of_def amp_empty_def)
qed

lemma effects_ids:
  assumes "distinct (concat chunks)" and "\<forall>b \<in> set order. b < length chunks"
  shows "map id' (concat (map (\<lambda>b. results (batch_effect (resp b) fl (rnd b) ma b (chunks ! b))) order))
           = concat (map (nth chunks) order)"
  using assms(2)
proof (induction order)
  case Nil
  show ?case by simp
next
  case (Cons b order)
  have "map id' (results (batch_effect (resp b) fl (rnd b) ma b (chunks ! b))) = chunks ! b"
    using assms(1) Cons.prems by (intro batch_effect_ids distinct_concat_nth) simp_all
  with Cons show ?case by simp
qed

text \<open>
  Claim C4. Let the API key be present, the batch size and the concurrency be at least 1,
  the identifiers be distinct, and the batches complete in an order the limiter admits.
  Then, whatever the service answers to each attempt of each batch and whatever the
  retry budget, the client returns, and the identifiers of the entries it returns are
  the given identifiers, each exactly once: as multisets they are equal, no identifier
  occurs twice, none is missing, and the number of entries is the number of identifiers.
\<close>

theorem one_entry_per_identifier:
  assumes "apiKey \<noteq> []" and "batchSize_of options \<noteq> 0" and "concurrentBatches_of options \<noteq> 0"
    and "distinct publicIds"
    and "admissible (concurrentBatches_of options)
           (length (partition_of (batchSize_of options) publicIds)) order"
  shows "\<exists>st. deleteUsersAmplitude publicIds apiKey options resp fl rnd order = Some (None, st)
           \<and> mset (map id' (results st)) = mset publicIds
           \<and> distinct (map id' (results st))
           \<and> set (map id' (results st)) = set publicIds
           \<and> length (results st) = length publicIds"
proof -
  let ?chunks = "partition_of (batchSize_of options) publicIds"
  let ?st = "foldl amp_append amp_empty
               (map (\<lambda>b. batch_effect (resp b) fl (rnd b) (maxAttempts_of options) b (?chunks ! b)) order)"
  have whole: "concat ?chunks = publicIds"
    using assms(2) by (rule partition_of_concat)
  have d: "distinct (concat ?chunks)"
    using whole assms(4) by simp
  have "map id' (results ?st) = concat (map (nth ?chunks) order)"
    using effects_ids [OF d, of order resp fl rnd "maxAttempts_of options"] admissible_set [OF assms(5)]
    by (simp add: foldl_amp_append amp_empty_def comp_def)
  then have "mset (map id' (results ?st)) = mset (concat ?chunks)"
    using mset_concat_perm [OF admissible_perm [OF assms(5)]] by simp
  then have m: "mset (map id' (results ?st)) = mset publicIds"
    using whole by simp
  have dist: "distinct (map id' (results ?st))"
    using mset_eq_imp_distinct_iff [OF m] assms(4) by simp
  have same: "set (map id' (results ?st)) = set publicIds"
    using m by (rule mset_eq_setD)
  have len: "length (results ?st) = length publicIds"
    using mset_eq_length [OF m] by simp
  have run: "deleteUsersAmplitude publicIds apiKey options resp fl rnd order = Some (None, ?st)"
    using assms by (rule client_effects)
  show ?thesis
    by (rule exI [of _ ?st]) (simp only: run m dist same len simp_thms)
qed


lemma partition_abc: "partition_of 2 [''u1'', ''u2'', ''u3''] = [[''u1'', ''u2''], [''u3'']]"
  by (simp add: partition_of_def numeral_eq_enat pieces.simps)

theorem one_entry_per_identifier_witness:
  "\<exists>st. deleteUsersAmplitude [''u1'', ''u2'', ''u3''] ''key'' example_options
           busy_first_batch (\<lambda>x. x) (\<lambda>b a. 0) [0, 1] = Some (None, st)
         \<and> mset (map id' (results st)) = mset [''u1'', ''u2'', ''u3'']
         \<and> distinct (map id' (results st))
         \<and> set (map id' (results st)) = set [''u1'', ''u2'', ''u3'']
         \<and> length (results st) = length [''u1'', ''u2'', ''u3'']"
proof -
  have h1: "''key'' \<noteq> []" by simp
  have h2: "batchSize_of example_options \<noteq> 0"
    by (simp add: batchSize_of_def example_options_def)
  have h3: "concurrentBatches_of example_options \<noteq> 0"
    by (simp add: concurrentBatches_of_def example_options_def)
  have h4: "distinct [''u1'', ''u2'', ''u3'']" by simp
  have h5: "admissible (concurrentBatches_of example_options)
           (length (partition_of (batchSize_of example_options) [''u1'', ''u2'', ''u3''])) [0, 1]"
    by (simp add: concurrentBatches_of_def batchSize_of_def example_options_def partition_abc
          admissible_def one_enat_def upt_conv_Cons)
  show ?thesis
    by (rule one_entry_per_identifier [OF h1 h2 h3 h4 h5])
qed

section \<open>A permanent failure is not retried\<close>

lemma calls_record_call [simp]: "calls (record_call idx a st) = calls st @ [(idx, a)]"
  by (simp add: record_call_def)

lemma calls_sleep [simp]: "calls (sleep idx ms st) = calls st"
  by (simp add: sleep_def)

lemma calls_push_all [simp]: "calls (push_all mk chunk st) = calls st"
  by (simp add: push_all_def)

lemma sleeps_record_call [simp]: "sleeps (record_call idx a st) = sleeps st"
  by (simp add: record_call_def)

lemma sleeps_sleep [simp]: "sleeps (sleep idx ms st) = sleeps st @ [(idx, ms)]"
  by (simp add: sleep_def)

lemma sleeps_push_all [simp]: "sleeps (push_all mk chunk st) = sleeps st"
  by (simp add: push_all_def)

lemma attempt_loop_index:
  "(\<forall>c \<in> set (calls (snd (attempt_loop resp fl rnd ma idx chunk a st))). c \<in> set (calls st) \<or> fst c = idx)
   \<and> (\<forall>c \<in> set (sleeps (snd (attempt_loop resp fl rnd ma idx chunk a st))). c \<in> set (sleeps st) \<or> fst c = idx)"
proof (induction "ma - a" arbitrary: a st rule: less_induct)
  case less
  show ?case
  proof (cases "a < ma")
    case False
    then show ?thesis
      by (simp add: loop_end)
  next
    case True
    let ?st = "sleep idx (calculateBackoff fl a default_baseMs default_capMs (rnd a)) (record_call idx a st)"
    have IH: "(\<forall>c \<in> set (calls (snd (attempt_loop resp fl rnd ma idx chunk (Suc a) ?st))).
                 c \<in> set (calls ?st) \<or> fst c = idx)
            \<and> (\<forall>c \<in> set (sleeps (snd (attempt_loop resp fl rnd ma idx chunk (Suc a) ?st))).
                 c \<in> set (sleeps ?st) \<or> fst c = idx)"
      using True by (intro less.hyps) auto
    show ?thesis
    proof (cases "try_body (resp a)")
      case ReturnOk
      then show ?thesis
        using True by (auto simp: loop_ok)
    next
      case (ReturnFailed msg)
      then show ?thesis
        using True by (auto simp: loop_failed)
    next
      case ServerError
      show ?thesis
        using IH by (auto simp: loop_server [where resp = resp and a = a, OF True ServerError])
    next
      case (Caught err)
      show ?thesis
      proof (cases "Suc a = ma")
        case last: True
        show ?thesis
          by (auto simp: loop_caught_last [where resp = resp and a = a, OF last Caught])
      next
        case False
        with True have more: "Suc a < ma" by arith
        show ?thesis
          using IH by (auto simp: loop_caught [where resp = resp and a = a, OF more Caught])
      qed
    qed
  qed
qed

lemma batch_effect_index:
  "(\<forall>c \<in> set (calls (batch_effect resp fl rnd ma idx chunk)). fst c = idx)
   \<and> (\<forall>c \<in> set (sleeps (batch_effect resp fl rnd ma idx chunk)). fst c = idx)"
proof -
  obtain b d where loop: "attempt_loop resp fl rnd ma idx chunk 0 amp_empty = (b, d)"
    by (cases "attempt_loop resp fl rnd ma idx chunk 0 amp_empty")
  have "calls (batch_effect resp fl rnd ma idx chunk) = calls d"
    "sleeps (batch_effect resp fl rnd ma idx chunk) = sleeps d"
    using loop by (cases b; simp add: batch_effect_def run_batch_def)+
  then show ?thesis
    using attempt_loop_index [of resp fl rnd ma idx chunk 0 amp_empty] loop
    by (simp add: amp_empty_def)
qed

lemma filter_concat_one:
  assumes "distinct order" and "b \<in> set order"
    and "\<And>x. x \<in> set order \<Longrightarrow> x \<noteq> b \<Longrightarrow> filter P (f x) = []"
    and "filter P (f b) = f b"
  shows "filter P (concat (map f order)) = f b"
  using assms(1,2,3)
proof (induction order)
  case Nil
  then show ?case by simp
next
  case (Cons x order)
  show ?case
  proof (cases "x = b")
    case True
    then have "b \<notin> set order"
      using Cons.prems(1) by simp
    then have "\<And>y. y \<in> set order \<Longrightarrow> filter P (f y) = []"
      using Cons.prems(3) by auto
    then have "filter P (concat (map f order)) = []"
      by (induction order) simp_all
    with True assms(4) show ?thesis by simp
  next
    case False
    then have "filter P (f x) = []"
      using Cons.prems(3) by simp
    moreover have "filter P (concat (map f order)) = f b"
      using Cons.prems False by (intro Cons.IH) auto
    ultimately show ?thesis by simp
  qed
qed

text \<open>What each batch contributes to the final state is what it does on its own.\<close>

lemma batch_view:
  assumes d: "distinct (concat chunks)" and o: "distinct order" "set order = {..<length chunks}"
    and b: "b < length chunks"
  shows "filter (\<lambda>r. id' r \<in> set (chunks ! b))
           (concat (map (\<lambda>x. results (batch_effect (resp x) fl (rnd x) ma x (chunks ! x))) order))
         = results (batch_effect (resp b) fl (rnd b) ma b (chunks ! b))"
    and "filter (\<lambda>c. fst c = b)
           (concat (map (\<lambda>x. calls (batch_effect (resp x) fl (rnd x) ma x (chunks ! x))) order))
         = calls (batch_effect (resp b) fl (rnd b) ma b (chunks ! b))"
    and "filter (\<lambda>c. fst c = b)
           (concat (map (\<lambda>x. sleeps (batch_effect (resp x) fl (rnd x) ma x (chunks ! x))) order))
         = sleeps (batch_effect (resp b) fl (rnd b) ma b (chunks ! b))"
proof -
  have mem: "b \<in> set order"
    using o(2) b by simp
  have ids: "\<And>x. x \<in> set order \<Longrightarrow>
      id' ` set (results (batch_effect (resp x) fl (rnd x) ma x (chunks ! x))) = set (chunks ! x)"
  proof -
    fix x assume "x \<in> set order"
    then have "x < length chunks" using o(2) by simp
    then have "map id' (results (batch_effect (resp x) fl (rnd x) ma x (chunks ! x))) = chunks ! x"
      using d by (intro batch_effect_ids distinct_concat_nth)
    then show "id' ` set (results (batch_effect (resp x) fl (rnd x) ma x (chunks ! x))) = set (chunks ! x)"
      by (metis set_map)
  qed
  show "filter (\<lambda>r. id' r \<in> set (chunks ! b))
           (concat (map (\<lambda>x. results (batch_effect (resp x) fl (rnd x) ma x (chunks ! x))) order))
         = results (batch_effect (resp b) fl (rnd b) ma b (chunks ! b))"
  proof (rule filter_concat_one [OF o(1) mem])
    fix x assume x: "x \<in> set order" "x \<noteq> b"
    then have "x < length chunks" using o(2) by simp
    then have "set (chunks ! x) \<inter> set (chunks ! b) = {}"
      using d b x(2) by (intro distinct_concat_disjoint)
    then show "filter (\<lambda>r. id' r \<in> set (chunks ! b))
                 (results (batch_effect (resp x) fl (rnd x) ma x (chunks ! x))) = []"
      using ids [OF x(1)] by (auto simp: filter_empty_conv)
  next
    show "filter (\<lambda>r. id' r \<in> set (chunks ! b))
            (results (batch_effect (resp b) fl (rnd b) ma b (chunks ! b)))
          = results (batch_effect (resp b) fl (rnd b) ma b (chunks ! b))"
      using ids [OF mem] by (auto simp: filter_id_conv)
  qed
  show "filter (\<lambda>c. fst c = b)
           (concat (map (\<lambda>x. calls (batch_effect (resp x) fl (rnd x) ma x (chunks ! x))) order))
         = calls (batch_effect (resp b) fl (rnd b) ma b (chunks ! b))"
  proof (rule filter_concat_one [OF o(1) mem])
    fix x assume "x \<in> set order" "x \<noteq> b"
    then show "filter (\<lambda>c. fst c = b) (calls (batch_effect (resp x) fl (rnd x) ma x (chunks ! x))) = []"
      using batch_effect_index [of "resp x" fl "rnd x" ma x "chunks ! x"]
      by (auto simp: filter_empty_conv)
  next
    show "filter (\<lambda>c. fst c = b) (calls (batch_effect (resp b) fl (rnd b) ma b (chunks ! b)))
          = calls (batch_effect (resp b) fl (rnd b) ma b (chunks ! b))"
      using batch_effect_index [of "resp b" fl "rnd b" ma b "chunks ! b"]
      by (auto simp: filter_id_conv)
  qed
  show "filter (\<lambda>c. fst c = b)
           (concat (map (\<lambda>x. sleeps (batch_effect (resp x) fl (rnd x) ma x (chunks ! x))) order))
         = sleeps (batch_effect (resp b) fl (rnd b) ma b (chunks ! b))"
  proof (rule filter_concat_one [OF o(1) mem])
    fix x assume "x \<in> set order" "x \<noteq> b"
    then show "filter (\<lambda>c. fst c = b) (sleeps (batch_effect (resp x) fl (rnd x) ma x (chunks ! x))) = []"
      using batch_effect_index [of "resp x" fl "rnd x" ma x "chunks ! x"]
      by (auto simp: filter_empty_conv)
  next
    show "filter (\<lambda>c. fst c = b) (sleeps (batch_effect (resp b) fl (rnd b) ma b (chunks ! b)))
          = sleeps (batch_effect (resp b) fl (rnd b) ma b (chunks ! b))"
      using batch_effect_index [of "resp b" fl "rnd b" ma b "chunks ! b"]
      by (auto simp: filter_id_conv)
  qed
qed

lemma permanent_effect:
  assumes "0 < ma" and "resp 0 = Response status text" and "\<not> res_ok status" and "status < 500"
  shows "batch_effect resp fl rnd ma idx chunk =
           \<lparr>results = map (\<lambda>i. \<lparr>id' = i, ok = False,
                                 error = Some (''Amplitude '' @ show_nat status @ '': '' @ text)\<rparr>) chunk,
            calls = [(idx, 0)], sleeps = []\<rparr>"
proof -
  have "try_body (resp 0) = ReturnFailed (''Amplitude '' @ show_nat status @ '': '' @ text)"
    using assms(2,3,4) by (simp add: try_body_def)
  from loop_failed [where resp = resp and a = 0, OF assms(1) this]
  show ?thesis
    by (simp add: batch_effect_def run_batch_def push_all_def record_call_def amp_empty_def)
qed

lemma requireEnv_Inr: "requireEnv name v = Inr x \<Longrightarrow> x \<noteq> []"
  by (auto simp: requireEnv_def split: option.splits if_splits)

lemma load_ids_distinct: "load_ids inp = Inr l \<Longrightarrow> distinct (allIds l)"
  by (auto simp: load_ids_def Let_def dedupe_distinct split: input.splits if_splits)

lemma main_completes:
  assumes "requireEnv ''DB_URL'' (DB_URL e) = Inr dbUrl"
    and "requireEnv ''AMPLITUDE_KEY'' (AMPLITUDE_KEY e) = Inr amplitudeKey"
    and "load_ids (IDS_JSON_content e) = Inr l"
    and "signal_at w \<noteq> BeforeDatabase" and "signal_at w \<noteq> DuringDatabase"
    and "runGdprSqlWithTempTable (db_fault w) (db_chunk_size e) (allIds l) = Some (None, d)"
    and "deleteUsersAmplitude (allIds l) amplitudeKey (amp_options e)
           (http w) (float_round w) (random w) (completion w) = Some (None, a)"
  shows "main e w =
           Some \<lparr>exit_code = (if 0 < length (filter (\<lambda>r. \<not> ok r) (results a)) then 2 else 0),
                 report_json =
                   Some \<lparr>dryRun = (DRY_RUN e = Some ''true''),
                         input_totalIds = totalIds l, input_uniqueIds = uniqueIds l,
                         database_status = Success, database_error = None,
                         amplitude_successful = length (filter (\<lambda>r. ok r) (results a)),
                         amplitude_failed = length (filter (\<lambda>r. \<not> ok r) (results a)),
                         amplitude_results = results a\<rparr>,
                 summary_txt = DeletionSummary, db = d, amp = a\<rparr>"
  using assms by (simp add: main_def Let_def db_chunk_size_def amp_options_def)

text \<open>
  Claim C6. Let a run pass the loader and both signal checks, let the relational stage
  succeed, let the batch size, the concurrency and the retry budget be at least 1, and
  let the batches complete in an order the limiter admits. If the first response to batch
  \<open>b\<close> is a response with a status below 500 that is not a success, then the run returns
  with exit code 2 (not the fatal code 1); exactly one request is issued for batch \<open>b\<close>
  and no delay is slept for it; each identifier of batch \<open>b\<close> has the entry marked not
  ok with the status and the body of that response as its detail; and for every batch,
  the entries and the requests found in the final state are those the batch produces on
  its own, from its own responses alone.
\<close>

theorem permanent_failure_not_retried:
  assumes "requireEnv ''DB_URL'' (DB_URL e) = Inr dbUrl"
    and "requireEnv ''AMPLITUDE_KEY'' (AMPLITUDE_KEY e) = Inr amplitudeKey"
    and "load_ids (IDS_JSON_content e) = Inr l"
    and "signal_at w \<noteq> BeforeDatabase" and "signal_at w \<noteq> DuringDatabase"
    and "runGdprSqlWithTempTable (db_fault w) (db_chunk_size e) (allIds l) = Some (None, d)"
    and "batchSize_of (amp_options e) \<noteq> 0"
    and "concurrentBatches_of (amp_options e) \<noteq> 0"
    and "0 < maxAttempts_of (amp_options e)"
    and "admissible (concurrentBatches_of (amp_options e))
           (length (partition_of (batchSize_of (amp_options e)) (allIds l))) (completion w)"
    and "b < length (partition_of (batchSize_of (amp_options e)) (allIds l))"
    and "http w b 0 = Response status text" and "\<not> res_ok status" and "status < 500"
  shows "\<exists>r. main e w = Some r
           \<and> exit_code r = 2
           \<and> db r = d
           \<and> filter (\<lambda>c. fst c = b) (calls (amp r)) = [(b, 0)]
           \<and> filter (\<lambda>c. fst c = b) (sleeps (amp r)) = []
           \<and> filter (\<lambda>x. id' x \<in> set (partition_of (batchSize_of (amp_options e)) (allIds l) ! b))
                 (results (amp r))
               = map (\<lambda>i. \<lparr>id' = i, ok = False,
                             error = Some (''Amplitude '' @ show_nat status @ '': '' @ text)\<rparr>)
                   (partition_of (batchSize_of (amp_options e)) (allIds l) ! b)
           \<and> (\<forall>b' < length (partition_of (batchSize_of (amp_options e)) (allIds l)).
                 filter (\<lambda>x. id' x \<in> set (partition_of (batchSize_of (amp_options e)) (allIds l) ! b'))
                   (results (amp r))
                 = results (batch_effect (http w b') (float_round w) (random w b') (maxAttempts_of (amp_options e)) b'
                              (partition_of (batchSize_of (amp_options e)) (allIds l) ! b'))
               \<and> filter (\<lambda>c. fst c = b') (calls (amp r))
                 = calls (batch_effect (http w b') (float_round w) (random w b') (maxAttempts_of (amp_options e)) b'
                              (partition_of (batchSize_of (amp_options e)) (allIds l) ! b')))"
proof -
  define chunks where "chunks = partition_of (batchSize_of (amp_options e)) (allIds l)"
  define ma where "ma = maxAttempts_of (amp_options e)"
  define E where "E = (\<lambda>x. batch_effect (http w x) (float_round w) (random w x) ma x (chunks ! x))"
  define a where "a = foldl amp_append amp_empty (map E (completion w))"
  define mk where "mk = (\<lambda>i. \<lparr>id' = i, ok = False,
                             error = Some (''Amplitude '' @ show_nat status @ '': '' @ text)\<rparr>)"
  have key: "amplitudeKey \<noteq> []"
    using assms(2) by (rule requireEnv_Inr)
  have ids: "distinct (allIds l)"
    using assms(3) by (rule load_ids_distinct)
  have client: "deleteUsersAmplitude (allIds l) amplitudeKey (amp_options e)
                  (http w) (float_round w) (random w) (completion w) = Some (None, a)"
    unfolding a_def E_def ma_def chunks_def
    using key assms(7,8) ids assms(10) by (rule client_effects)
  have d: "distinct (concat chunks)"
    unfolding chunks_def using assms(7) ids by (simp add: partition_of_concat)
  have o1: "distinct (completion w)"
    using assms(10) by (rule admissible_distinct)
  have o2: "set (completion w) = {..<length chunks}"
    unfolding chunks_def using assms(10) by (rule admissible_set)
  have b: "b < length chunks"
    unfolding chunks_def by (rule assms(11))
  have res: "results a = concat (map (\<lambda>x. results (E x)) (completion w))"
    and cal: "calls a = concat (map (\<lambda>x. calls (E x)) (completion w))"
    and sle: "sleeps a = concat (map (\<lambda>x. sleeps (E x)) (completion w))"
    unfolding a_def by (simp_all add: foldl_amp_append amp_empty_def comp_def)
  have Eb: "E b = \<lparr>results = map mk (chunks ! b), calls = [(b, 0)], sleeps = []\<rparr>"
    unfolding E_def mk_def ma_def using assms(9,12,13,14) by (rule permanent_effect)
  have view_r: "filter (\<lambda>x. id' x \<in> set (chunks ! b')) (results a) = results (E b')"
    if "b' < length chunks" for b'
    unfolding res E_def using d o1 o2 that by (rule batch_view(1))
  have view_c: "filter (\<lambda>c. fst c = b') (calls a) = calls (E b')"
    if "b' < length chunks" for b'
    unfolding cal E_def using d o1 o2 that by (rule batch_view(2))
  have view_s: "filter (\<lambda>c. fst c = b') (sleeps a) = sleeps (E b')"
    if "b' < length chunks" for b'
    unfolding sle E_def using d o1 o2 that by (rule batch_view(3))
  have own_r: "filter (\<lambda>x. id' x \<in> set (chunks ! b)) (results a) = map mk (chunks ! b)"
    using view_r [OF b] by (simp add: Eb)
  have own_c: "filter (\<lambda>c. fst c = b) (calls a) = [(b, 0)]"
    using view_c [OF b] by (simp add: Eb)
  have own_s: "filter (\<lambda>c. fst c = b) (sleeps a) = []"
    using view_s [OF b] by (simp add: Eb)
  have "chunks ! b \<in> set chunks"
    using b by simp
  then have "chunks ! b \<noteq> []"
    unfolding chunks_def using partition_of_bounds [OF assms(7)] by blast
  then obtain i where i: "i \<in> set (chunks ! b)"
    by (cases "chunks ! b") auto
  then have "mk i \<in> set (filter (\<lambda>x. id' x \<in> set (chunks ! b)) (results a))"
    unfolding own_r by simp
  then have "mk i \<in> set (results a)" and "\<not> ok (mk i)"
    by (simp_all add: mk_def)
  then have "filter (\<lambda>r. \<not> ok r) (results a) \<noteq> []"
    unfolding filter_empty_conv by blast
  then have failed: "0 < length (filter (\<lambda>r. \<not> ok r) (results a))"
    by simp
  have "main e w =
           Some \<lparr>exit_code = (if 0 < length (filter (\<lambda>r. \<not> ok r) (results a)) then 2 else 0),
                 report_json =
                   Some \<lparr>dryRun = (DRY_RUN e = Some ''true''),
                         input_totalIds = totalIds l, input_uniqueIds = uniqueIds l,
                         database_status = Success, database_error = None,
                         amplitude_successful = length (filter (\<lambda>r. ok r) (results a)),
                         amplitude_failed = length (filter (\<lambda>r. \<not> ok r) (results a)),
                         amplitude_results = results a\<rparr>,
                 summary_txt = DeletionSummary, db = d, amp = a\<rparr>"
    using assms(1,2,3,4,5,6) client by (rule main_completes)
  then obtain r where run: "main e w = Some r" and r: "exit_code r = 2" "db r = d" "amp r = a"
    using failed by simp
  have siblings: "\<forall>b' < length chunks.
      filter (\<lambda>x. id' x \<in> set (chunks ! b')) (results (amp r)) = results (E b')
      \<and> filter (\<lambda>c. fst c = b') (calls (amp r)) = calls (E b')"
    unfolding r using view_r view_c by blast
  show ?thesis
    using run r(1,2) own_c own_s own_r siblings
    unfolding r(3) [symmetric] chunks_def E_def ma_def mk_def
    by blast
qed

lemma example_hyps:
  "requireEnv ''DB_URL'' (DB_URL example_env) = Inr ''postgres://db''"
  "requireEnv ''AMPLITUDE_KEY'' (AMPLITUDE_KEY example_env) = Inr ''key''"
  "db_chunk_size example_env = 2"
  "batchSize_of (amp_options example_env) = 2"
  "concurrentBatches_of (amp_options example_env) = 1"
  "maxAttempts_of (amp_options example_env) = 5"
  by (simp_all add: requireEnv_def example_env_def db_chunk_size_def amp_options_def
        batchSize_of_def concurrentBatches_of_def maxAttempts_of_def)

lemma admissible_012: "admissible 1 (length [[''u1'', ''u2''], [''u3'', ''u4''], [''u5'']]) [0, 1, 2]"
  by (simp add: admissible_def one_enat_def upt_conv_Cons)

theorem permanent_failure_not_retried_witness:
  "\<exists>r. main example_env rejecting_world = Some r
       \<and> exit_code r = 2
       \<and> filter (\<lambda>c. fst c = 1) (calls (amp r)) = [(1, 0)]
       \<and> filter (\<lambda>c. fst c = 1) (sleeps (amp r)) = []
       \<and> filter (\<lambda>x. id' x \<in> {''u3'', ''u4''}) (results (amp r))
           = [\<lparr>id' = ''u3'', ok = False, error = Some ''Amplitude 400: bad request''\<rparr>,
              \<lparr>id' = ''u4'', ok = False, error = Some ''Amplitude 400: bad request''\<rparr>]"
proof -
  let ?ids = "[''u1'', ''u2'', ''u3'', ''u4'', ''u5'']"
  let ?l = "\<lparr>allIds = ?ids, totalIds = 5, uniqueIds = 5\<rparr>"
  let ?d = "\<lparr>trace = concat (map committed_events (partition_of 2 ?ids)) @ [EvPoolEnd],
             committed = partition_of 2 ?ids\<rparr>"
  have s1: "signal_at rejecting_world \<noteq> BeforeDatabase"
    and s2: "signal_at rejecting_world \<noteq> DuringDatabase"
    by (simp_all add: rejecting_world_def quiet_world_def)
  have rel: "runGdprSqlWithTempTable (db_fault rejecting_world) (db_chunk_size example_env)
               (allIds ?l) = Some (None, ?d)"
    using engine_no_fault [of 2 ?ids]
    by (simp add: example_hyps rejecting_world_def quiet_world_def)
  have o1: "batchSize_of (amp_options example_env) \<noteq> 0"
    and o2: "concurrentBatches_of (amp_options example_env) \<noteq> 0"
    and o3: "0 < maxAttempts_of (amp_options example_env)"
    by (simp_all add: example_hyps)
  have adm: "admissible (concurrentBatches_of (amp_options example_env))
           (length (partition_of (batchSize_of (amp_options example_env)) (allIds ?l)))
           (completion rejecting_world)"
    using admissible_012
    by (simp add: example_hyps example_partition rejecting_world_def quiet_world_def)
  have b: "1 < length (partition_of (batchSize_of (amp_options example_env)) (allIds ?l))"
    by (simp add: example_hyps example_partition)
  have p1: "http rejecting_world 1 0 = Response 400 ''bad request''"
    by (simp add: rejecting_world_def quiet_world_def)
  have p2: "\<not> res_ok 400" and p3: "(400::nat) < 500"
    by (simp_all add: res_ok_def)
  from permanent_failure_not_retried
    [OF example_hyps(1,2) example_ids s1 s2 rel o1 o2 o3 adm b p1 p2 p3]
  obtain r where r: "main example_env rejecting_world = Some r" "exit_code r = 2"
      "filter (\<lambda>c. fst c = 1) (calls (amp r)) = [(1, 0)]"
      "filter (\<lambda>c. fst c = 1) (sleeps (amp r)) = []"
      "filter (\<lambda>x. id' x \<in> set (partition_of (batchSize_of (amp_options example_env)) (allIds ?l) ! 1))
                 (results (amp r))
               = map (\<lambda>i. \<lparr>id' = i, ok = False,
                             error = Some (''Amplitude '' @ show_nat 400 @ '': '' @ ''bad request'')\<rparr>)
                   (partition_of (batchSize_of (amp_options example_env)) (allIds ?l) ! 1)"
    by blast
  have "filter (\<lambda>x. id' x \<in> {''u3'', ''u4''}) (results (amp r))
           = [\<lparr>id' = ''u3'', ok = False, error = Some ''Amplitude 400: bad request''\<rparr>,
              \<lparr>id' = ''u4'', ok = False, error = Some ''Amplitude 400: bad request''\<rparr>]"
    using r(5) by (simp add: example_hyps example_partition insert_commute)
  with r(1,2,3,4) show ?thesis
    by blast
qed

section \<open>Retries and their delays\<close>

lemma transient_cases:
  "transient out \<Longrightarrow>
   try_body out = ServerError \<and> \<not> transport_failure out
   \<or> (\<exists>err. try_body out = Caught err \<and> transport_failure out)"
  by (cases out) (auto simp: transient_def transport_failure_def try_body_def res_ok_def)

text \<open>The program goes on to another attempt exactly after a transient failure.\<close>

lemma retried_iff_transient:
  "(try_body out = ServerError \<or> (\<exists>err. try_body out = Caught err)) \<longleftrightarrow> transient out"
  by (cases out) (auto simp: transient_def try_body_def res_ok_def)

lemma transient_loop:
  "(\<And>j. a \<le> j \<Longrightarrow> j < ma \<Longrightarrow> transient (resp j)) \<Longrightarrow>
   \<not> fst (attempt_loop resp fl rnd ma idx chunk a st)
   \<and> calls (snd (attempt_loop resp fl rnd ma idx chunk a st)) = calls st @ map (Pair idx) [a..<ma]
   \<and> sleeps (snd (attempt_loop resp fl rnd ma idx chunk a st)) =
       sleeps st @ map (\<lambda>j. (idx, calculateBackoff fl j default_baseMs default_capMs (rnd j)))
                      (filter (\<lambda>j. \<not> (Suc j = ma \<and> transport_failure (resp j))) [a..<ma])"
proof (induction "ma - a" arbitrary: a st rule: less_induct)
  case less
  show ?case
  proof (cases "a < ma")
    case False
    then show ?thesis
      by (simp add: loop_end)
  next
    case True
    let ?st = "sleep idx (calculateBackoff fl a default_baseMs default_capMs (rnd a)) (record_call idx a st)"
    have IH: "\<not> fst (attempt_loop resp fl rnd ma idx chunk (Suc a) ?st)
     \<and> calls (snd (attempt_loop resp fl rnd ma idx chunk (Suc a) ?st)) = calls ?st @ map (Pair idx) [Suc a..<ma]
     \<and> sleeps (snd (attempt_loop resp fl rnd ma idx chunk (Suc a) ?st)) =
       sleeps ?st @ map (\<lambda>j. (idx, calculateBackoff fl j default_baseMs default_capMs (rnd j)))
                      (filter (\<lambda>j. \<not> (Suc j = ma \<and> transport_failure (resp j))) [Suc a..<ma])"
      using True less.prems by (intro less.hyps) auto
    have upt: "[a..<ma] = a # [Suc a..<ma]"
      using True by (rule upt_conv_Cons)
    from transient_cases [OF less.prems [of a]] True
    consider "try_body (resp a) = ServerError" "\<not> transport_failure (resp a)"
      | err where "try_body (resp a) = Caught err" "transport_failure (resp a)"
      by auto
    then show ?thesis
    proof cases
      case 1
      show ?thesis
        using IH 1(2)
        by (simp add: loop_server [where resp = resp and a = a, OF True 1(1)] upt)
    next
      case 2
      show ?thesis
      proof (cases "Suc a = ma")
        case last: True
        then have "[Suc a..<ma] = []" by simp
        then show ?thesis
          using 2(2) last
          by (simp add: loop_caught_last [where resp = resp and a = a, OF last 2(1)] upt)
      next
        case False
        with True have more: "Suc a < ma" by arith
        show ?thesis
          using IH False
          by (simp add: loop_caught [where resp = resp and a = a, OF more 2(1)] upt)
      qed
    qed
  qed
qed

lemma run_batch_calls:
  "calls (run_batch resp fl rnd ma idx chunk st) = calls (snd (attempt_loop resp fl rnd ma idx chunk 0 st))"
  "sleeps (run_batch resp fl rnd ma idx chunk st) = sleeps (snd (attempt_loop resp fl rnd ma idx chunk 0 st))"
  by (cases "attempt_loop resp fl rnd ma idx chunk 0 st"; cases "fst (attempt_loop resp fl rnd ma idx chunk 0 st)";
      simp add: run_batch_def)+

lemma rounding_mono: "double_rounding fl \<Longrightarrow> x \<le> y \<Longrightarrow> fl x \<le> fl y"
  by (simp add: double_rounding_def)

lemma rounding_exact: "double_rounding fl \<Longrightarrow> n \<le> 2 ^ 53 \<Longrightarrow> fl (real n) = real n"
  by (simp add: double_rounding_def)

lemma rounding_identity: "double_rounding (\<lambda>x. x)"
  by (simp add: double_rounding_def)

lemma capped_part_nat: "capped_part j = real (min 15000 (1000 * 2 ^ j))"
  by (simp add: capped_part_def default_baseMs_def default_capMs_def of_nat_min)

lemma capped_part_bounds:
  "capped_part j \<le> default_capMs" "capped_part j \<le> capped_part (Suc j)"
  by (simp_all add: capped_part_def default_baseMs_def default_capMs_def min_def)

lemma capped_part_late: "4 \<le> j \<Longrightarrow> capped_part j = 15000"
proof -
  assume "4 \<le> j"
  then have "(2::real) ^ 4 \<le> 2 ^ j"
    by (intro power_increasing) simp_all
  then show ?thesis
    by (simp add: capped_part_def default_baseMs_def default_capMs_def min_def)
qed

lemma capped_part_early:
  "capped_part 0 = 1000" "capped_part 1 = 2000" "capped_part 2 = 4000" "capped_part 3 = 8000"
  "capped_part (Suc 0) = 2000" "capped_part (Suc (Suc 0)) = 4000"
  by (simp_all add: capped_part_def default_baseMs_def default_capMs_def)

text \<open>The rounding does not touch the capped part: below the cap it is a small integer.\<close>

lemma capped_exact:
  assumes "double_rounding fl"
  shows "min default_capMs (fl (default_baseMs * fl (2 ^ j))) = capped_part j"
proof (cases "j < 4")
  case True
  have p: "fl (2 ^ j) = 2 ^ j"
  proof -
    have "(2::nat) ^ j \<le> 2 ^ 53"
      using True by (intro power_increasing) simp_all
    from rounding_exact [OF assms this] show ?thesis by simp
  qed
  have "(1000::nat) * 2 ^ j \<le> 1000 * 2 ^ 4"
    using True by (intro mult_left_mono power_increasing) simp_all
  then have "(1000::nat) * 2 ^ j \<le> 2 ^ 53"
    by simp
  from rounding_exact [OF assms this] have "fl (1000 * 2 ^ j) = 1000 * 2 ^ j"
    by simp
  then show ?thesis
    by (simp add: p capped_part_def default_baseMs_def)
next
  case False
  then have j: "4 \<le> j" by simp
  have "(2::real) ^ 4 \<le> 2 ^ j"
    using j by (intro power_increasing) simp_all
  moreover have "(2::real) ^ 4 = 16"
    by simp
  ultimately have "(16::real) \<le> 2 ^ j"
    by (simp only:)
  from rounding_mono [OF assms this] have "fl 16 \<le> fl (2 ^ j)" .
  moreover have "fl 16 = 16"
    using rounding_exact [OF assms, of 16] by simp
  ultimately have "16 \<le> fl (2 ^ j)"
    by (simp only:)
  then have "16000 \<le> 1000 * fl (2 ^ j)"
    by linarith
  from rounding_mono [OF assms this] have "fl 16000 \<le> fl (1000 * fl (2 ^ j))" .
  moreover have "fl 16000 = 16000"
    using rounding_exact [OF assms, of 16000] by simp
  ultimately have "16000 \<le> fl (1000 * fl (2 ^ j))"
    by (simp only:)
  then have "min 15000 (fl (1000 * fl (2 ^ j))) = 15000"
    by linarith
  then show ?thesis
    by (simp only: capped_part_late [OF j] default_baseMs_def default_capMs_def)
qed

lemma backoff_eq:
  "double_rounding fl \<Longrightarrow>
   calculateBackoff fl j default_baseMs default_capMs r = fl (capped_part j + fl (r * 250))"
  by (simp add: calculateBackoff_def Let_def capped_exact)

lemma backoff_between:
  assumes "double_rounding fl" and "0 \<le> r" and "r < 1"
  shows "capped_part j \<le> calculateBackoff fl j default_baseMs default_capMs r"
    and "calculateBackoff fl j default_baseMs default_capMs r \<le> capped_part j + 250"
proof -
  define n where "n = min (15000::nat) (1000 * 2 ^ j)"
  have c: "capped_part j = real n"
    by (simp add: n_def capped_part_nat)
  have n: "n \<le> 2 ^ 53" "n + 250 \<le> 2 ^ 53"
    by (simp_all add: n_def)
  have exact: "fl (real n) = real n" "fl (real n + 250) = real n + 250"
    using rounding_exact [OF assms(1) n(1)] rounding_exact [OF assms(1) n(2)] by simp_all
  have "real 0 \<le> r * 250"
    using assms(2) by simp
  from rounding_mono [OF assms(1) this] have lo: "0 \<le> fl (r * 250)"
    using rounding_exact [OF assms(1), of 0] by simp
  have "r * 250 \<le> real 250"
    using assms(3) by simp
  from rounding_mono [OF assms(1) this] have hi: "fl (r * 250) \<le> 250"
    using rounding_exact [OF assms(1), of 250] by simp
  have "real n \<le> real n + fl (r * 250)"
    using lo by simp
  from rounding_mono [OF assms(1) this]
  have "real n \<le> fl (real n + fl (r * 250))"
    by (simp only: exact)
  then show "capped_part j \<le> calculateBackoff fl j default_baseMs default_capMs r"
    by (simp only: backoff_eq [OF assms(1)] c)
  have "real n + fl (r * 250) \<le> real n + 250"
    using hi by simp
  from rounding_mono [OF assms(1) this]
  have "fl (real n + fl (r * 250)) \<le> real n + 250"
    by (simp only: exact)
  then show "calculateBackoff fl j default_baseMs default_capMs r \<le> capped_part j + 250"
    by (simp only: backoff_eq [OF assms(1)] c)
qed

lemma capped_part_gap: "j < 4 \<Longrightarrow> capped_part j + 250 < capped_part (Suc j)"
proof -
  assume "j < 4"
  then consider "j = 0" | "j = 1" | "j = 2" | "j = 3"
    by arith
  then show ?thesis
    by cases (simp_all add: capped_part_def default_baseMs_def default_capMs_def)
qed

lemma backoff_increasing_early:
  assumes "double_rounding fl" and "j < 4" and "0 \<le> r" and "r < 1" and "0 \<le> r'" and "r' < 1"
  shows "calculateBackoff fl j default_baseMs default_capMs r
           < calculateBackoff fl (Suc j) default_baseMs default_capMs r'"
proof -
  have "calculateBackoff fl j default_baseMs default_capMs r \<le> capped_part j + 250"
    using assms(1,3,4) by (rule backoff_between(2))
  also have "\<dots> < capped_part (Suc j)"
    using assms(2) by (rule capped_part_gap)
  also have "\<dots> \<le> calculateBackoff fl (Suc j) default_baseMs default_capMs r'"
    using assms(1,5,6) by (rule backoff_between(1))
  finally show ?thesis .
qed

text \<open>
  Claim C5, as the code has it. Let every response a batch receives within its retry
  budget be a transient failure (a response of the 5xx class, or a failure of the
  transport), let every random number drawn lie in the interval from 0 (included) to 1
  (excluded), and let the arithmetic round as doubles do. Then the batch issues exactly
  \<open>ma\<close> requests, one per attempt, and sleeps after every attempt but a last one that
  ended in a failure of the transport. The delay after attempt \<open>j\<close> is the capped part
  \<open>min cap (base * 2 ^ j)\<close> plus a jitter: the capped part never exceeds the cap and never
  decreases, and the delay is at least the capped part and at most the capped part plus
  250 ms, a bound the rounding lets it reach. Up to attempt 4 each delay is longer than
  the one before.
\<close>

theorem transient_failures_are_retried:
  assumes "\<forall>j<ma. transient (resp j)" and "\<forall>j. 0 \<le> rnd j \<and> rnd j < 1"
    and "double_rounding fl"
  shows "calls (run_batch resp fl rnd ma idx chunk st) = calls st @ map (Pair idx) [0..<ma]
       \<and> sleeps (run_batch resp fl rnd ma idx chunk st) =
           sleeps st @ map (\<lambda>j. (idx, calculateBackoff fl j default_baseMs default_capMs (rnd j)))
                          (filter (\<lambda>j. \<not> (Suc j = ma \<and> transport_failure (resp j))) [0..<ma])
       \<and> (\<forall>j. capped_part j \<le> default_capMs
              \<and> capped_part j \<le> capped_part (Suc j)
              \<and> capped_part j \<le> calculateBackoff fl j default_baseMs default_capMs (rnd j)
              \<and> calculateBackoff fl j default_baseMs default_capMs (rnd j) \<le> capped_part j + 250)
       \<and> (\<forall>j<4. calculateBackoff fl j default_baseMs default_capMs (rnd j)
                   < calculateBackoff fl (Suc j) default_baseMs default_capMs (rnd (Suc j)))"
proof -
  have loop: "calls (snd (attempt_loop resp fl rnd ma idx chunk 0 st)) = calls st @ map (Pair idx) [0..<ma]"
    "sleeps (snd (attempt_loop resp fl rnd ma idx chunk 0 st)) =
       sleeps st @ map (\<lambda>j. (idx, calculateBackoff fl j default_baseMs default_capMs (rnd j)))
                      (filter (\<lambda>j. \<not> (Suc j = ma \<and> transport_failure (resp j))) [0..<ma])"
    using transient_loop [of 0 ma resp fl rnd idx chunk st] assms(1) by simp_all
  have early: "\<forall>j<4. calculateBackoff fl j default_baseMs default_capMs (rnd j)
                   < calculateBackoff fl (Suc j) default_baseMs default_capMs (rnd (Suc j))"
    using backoff_increasing_early [OF assms(3)] assms(2) by blast
  have bounds: "\<forall>j. capped_part j \<le> default_capMs
              \<and> capped_part j \<le> capped_part (Suc j)
              \<and> capped_part j \<le> calculateBackoff fl j default_baseMs default_capMs (rnd j)
              \<and> calculateBackoff fl j default_baseMs default_capMs (rnd j) \<le> capped_part j + 250"
    using capped_part_bounds backoff_between [OF assms(3)] assms(2) by blast
  show ?thesis
    using loop early bounds by (simp only: run_batch_calls simp_thms)
qed

lemma rounding_numeral:
  "double_rounding fl \<Longrightarrow> (numeral k :: nat) \<le> 2 ^ 53 \<Longrightarrow> fl (numeral k) = numeral k"
  using rounding_exact [of fl "numeral k"] by simp

lemma rounding_zero: "double_rounding fl \<Longrightarrow> fl 0 = 0"
  using rounding_exact [of fl 0] by simp

text \<open>The delays of the run that refutes the claim are the same under every rounding.\<close>

lemma busy_delays:
  assumes "double_rounding fl"
  shows "map snd (sleeps (run_batch always_busy fl falling_jitter 7 0 [''u1''] amp_empty))
     = [1000, 2000, 4000, 8000, 15125, 15000, 15000]"
proof -
  have t: "\<And>j. 0 \<le> j \<Longrightarrow> j < 7 \<Longrightarrow> transient (always_busy j)"
    by (simp add: transient_def always_busy_def)
  have c: "\<And>j. \<not> transport_failure (always_busy j)"
    by (simp add: transport_failure_def always_busy_def)
  have u: "[0..<7] = [0, 1, 2, 3, 4, 5, 6]"
    by (simp add: upt_conv_Cons)
  have late: "capped_part 4 = 15000" "capped_part 5 = 15000" "capped_part 6 = 15000"
    by (simp_all add: capped_part_late)
  show ?thesis
    using transient_loop [of 0 7 always_busy fl falling_jitter 0 "[''u1'']" amp_empty, OF t]
    by (simp add: run_batch_calls c u amp_empty_def backoff_eq [OF assms] falling_jitter_def
          capped_part_early late rounding_numeral [OF assms] rounding_zero [OF assms])
qed

text \<open>
  The claim as it was stated fails: with a budget of seven attempts, a service that
  always answers 503 and the random numbers 0, 0, 0, 0, 1/2, 0, 0, the delay after
  attempt 4 is 15125 ms, above the cap of 15000 ms, and the next delay is shorter.
\<close>

theorem delays_exceed_cap_counterexample:
  "map snd (sleeps (run_batch always_busy (\<lambda>x. x) falling_jitter 7 0 [''u1''] amp_empty))
     = [1000, 2000, 4000, 8000, 15125, 15000, 15000]
   \<and> \<not> sorted (map snd (sleeps (run_batch always_busy (\<lambda>x. x) falling_jitter 7 0 [''u1''] amp_empty)))
   \<and> \<not> (\<forall>d \<in> set (map snd (sleeps (run_batch always_busy (\<lambda>x. x) falling_jitter 7 0 [''u1''] amp_empty))).
          d \<le> default_capMs)"
proof -
  let ?ds = "map snd (sleeps (run_batch always_busy (\<lambda>x. x) falling_jitter 7 0 [''u1''] amp_empty))"
  note ds = busy_delays [OF rounding_identity]
  have "\<not> sorted ?ds"
    by (simp add: ds)
  moreover have "\<not> (\<forall>d \<in> set ?ds. d \<le> default_capMs)"
    unfolding ds by (simp add: default_capMs_def)
  ultimately show ?thesis
    using ds by blast
qed

theorem transient_failures_are_retried_witness:
  "calls (run_batch always_busy (\<lambda>x. x) falling_jitter 7 0 [''u1''] amp_empty) =
     [(0, 0), (0, 1), (0, 2), (0, 3), (0, 4), (0, 5), (0, 6)]
   \<and> capped_part 4 \<le> calculateBackoff (\<lambda>x. x) 4 default_baseMs default_capMs (falling_jitter 4)
   \<and> calculateBackoff (\<lambda>x. x) 4 default_baseMs default_capMs (falling_jitter 4) \<le> capped_part 4 + 250
   \<and> calculateBackoff (\<lambda>x. x) 0 default_baseMs default_capMs (falling_jitter 0)
       < calculateBackoff (\<lambda>x. x) 1 default_baseMs default_capMs (falling_jitter 1)"
proof -
  have t: "\<forall>j<7. transient (always_busy j)"
    by (simp add: transient_def always_busy_def)
  have r: "\<forall>j. 0 \<le> falling_jitter j \<and> falling_jitter j < 1"
    by (simp add: falling_jitter_def)
  have u: "[0..<7] = [0, 1, 2, 3, 4, 5, 6]"
    by (simp add: upt_conv_Cons)
  from transient_failures_are_retried [OF t r rounding_identity, of 0 "[''u1'']" amp_empty]
  have "calls (run_batch always_busy (\<lambda>x. x) falling_jitter 7 0 [''u1''] amp_empty)
          = calls amp_empty @ map (Pair 0) [0..<7]"
    and "capped_part 4 \<le> calculateBackoff (\<lambda>x. x) 4 default_baseMs default_capMs (falling_jitter 4)"
    and "calculateBackoff (\<lambda>x. x) 4 default_baseMs default_capMs (falling_jitter 4) \<le> capped_part 4 + 250"
    and "calculateBackoff (\<lambda>x. x) 0 default_baseMs default_capMs (falling_jitter 0)
       < calculateBackoff (\<lambda>x. x) (Suc 0) default_baseMs default_capMs (falling_jitter (Suc 0))"
    by simp_all
  then show ?thesis
    by (simp add: u amp_empty_def)
qed

section \<open>The dry-run flag and the termination signal\<close>

lemma quiet_client:
  "deleteUsersAmplitude [''u1'', ''u2'', ''u3'', ''u4'', ''u5''] ''key'' (amp_options (example_env\<lparr>DRY_RUN := x\<rparr>))
     (\<lambda>b a. Response 200 []) (\<lambda>x. x) (\<lambda>b a. 0) [0, 1, 2] =
   Some (None, \<lparr>results = all_ok, calls = [(0, 0), (1, 0), (2, 0)], sleeps = []\<rparr>)"
proof -
  have ok: "try_body (Response 200 []) = ReturnOk"
    by (simp add: try_body_def res_ok_def)
  have one: "\<And>idx chunk st. run_batch (\<lambda>a. Response 200 []) (\<lambda>x. x) (\<lambda>a. 0) 5 idx chunk st =
      push_all (\<lambda>i. \<lparr>id' = i, ok = True, error = None\<rparr>) chunk (record_call idx 0 st)"
    by (simp add: run_batch_def loop_ok [where a = 0 and resp = "\<lambda>a. Response 200 []"] ok)
  show ?thesis
    by (simp add: deleteUsersAmplitude_def amp_options_def example_env_def Let_def
          batch_loop_partition example_partition one push_all_def record_call_def all_ok_def)
qed

lemma quiet_run:
  assumes "s \<noteq> BeforeDatabase" and "s \<noteq> DuringDatabase"
  shows "main (example_env\<lparr>DRY_RUN := x\<rparr>) (quiet_world\<lparr>signal_at := s\<rparr>) =
     Some \<lparr>exit_code = 0,
           report_json =
             Some \<lparr>dryRun = (x = Some ''true''), input_totalIds = 5, input_uniqueIds = 5,
                   database_status = Success, database_error = None,
                   amplitude_successful = 5, amplitude_failed = 0, amplitude_results = all_ok\<rparr>,
           summary_txt = DeletionSummary,
           db = all_committed,
           amp = \<lparr>results = all_ok, calls = [(0, 0), (1, 0), (2, 0)], sleeps = []\<rparr>\<rparr>"
proof -
  let ?e = "example_env\<lparr>DRY_RUN := x\<rparr>"
  let ?w = "quiet_world\<lparr>signal_at := s\<rparr>"
  let ?l = "\<lparr>allIds = [''u1'', ''u2'', ''u3'', ''u4'', ''u5''], totalIds = 5, uniqueIds = 5\<rparr>"
  have h1: "requireEnv ''DB_URL'' (DB_URL ?e) = Inr ''postgres://db''"
    and h2: "requireEnv ''AMPLITUDE_KEY'' (AMPLITUDE_KEY ?e) = Inr ''key''"
    by (simp_all add: requireEnv_def example_env_def)
  have h3: "load_ids (IDS_JSON_content ?e) = Inr ?l"
    using example_ids by (simp add: example_env_def)
  have h4: "signal_at ?w \<noteq> BeforeDatabase" and h5: "signal_at ?w \<noteq> DuringDatabase"
    using assms by simp_all
  have h6: "runGdprSqlWithTempTable (db_fault ?w) (db_chunk_size ?e) (allIds ?l) = Some (None, all_committed)"
    using engine_no_fault [of 2 "[''u1'', ''u2'', ''u3'', ''u4'', ''u5'']"]
    by (simp add: db_chunk_size_def example_env_def quiet_world_def example_partition all_committed_def)
  have h7: "deleteUsersAmplitude (allIds ?l) ''key'' (amp_options ?e)
           (http ?w) (float_round ?w) (random ?w) (completion ?w) =
             Some (None, \<lparr>results = all_ok, calls = [(0, 0), (1, 0), (2, 0)], sleeps = []\<rparr>)"
    using quiet_client [of x] by (simp add: quiet_world_def)
  show ?thesis
    using main_completes [OF h1 h2 h3 h4 h5 h6 h7]
    by (simp add: all_ok_def)
qed

text \<open>
  Claim C1 fails on the code. With \<^verbatim>\<open>DRY_RUN=true\<close>, five identifiers, a store and a
  service that never fail, the run reports \<open>dryRun = True\<close> and yet every chunk is
  committed (the trace holds a commit and no rollback) and three requests are sent to the
  external service, one per batch.
\<close>

theorem dry_run_still_deletes:
  "main (example_env\<lparr>DRY_RUN := Some ''true''\<rparr>) quiet_world =
     Some \<lparr>exit_code = 0,
           report_json =
             Some \<lparr>dryRun = True, input_totalIds = 5, input_uniqueIds = 5,
                   database_status = Success, database_error = None,
                   amplitude_successful = 5, amplitude_failed = 0, amplitude_results = all_ok\<rparr>,
           summary_txt = DeletionSummary,
           db = all_committed,
           amp = \<lparr>results = all_ok, calls = [(0, 0), (1, 0), (2, 0)], sleeps = []\<rparr>\<rparr>
   \<and> committed all_committed = [[''u1'', ''u2''], [''u3'', ''u4''], [''u5'']]
   \<and> EvCommit \<in> set (trace all_committed)
   \<and> EvRollback \<notin> set (trace all_committed)"
proof -
  have "quiet_world\<lparr>signal_at := Never\<rparr> = quiet_world"
    by (simp add: quiet_world_def)
  then show ?thesis
    using quiet_run [of Never "Some ''true''"]
    by (simp add: all_committed_def committed_events_def)
qed

text \<open>
  More generally, the flag reaches the report and nothing else: a run with any value of
  \<^verbatim>\<open>DRY_RUN\<close> is the run without it, up to the report's \<open>dryRun\<close> field.
\<close>

lemma dry_run_is_only_reported:
  "main (e\<lparr>DRY_RUN := x\<rparr>) w =
     map_option
       (\<lambda>r. r\<lparr>report_json := map_option (\<lambda>rep. rep\<lparr>dryRun := (x = Some ''true'')\<rparr>) (report_json r)\<rparr>)
       (main e w)"
  by (simp add: main_def Let_def fatal_def rejected_def
        split: sum.splits option.splits prod.splits)

text \<open>
  Claim C7, as the code has it. The flag set by a termination signal is checked twice:
  before the relational engine starts, and after it has returned, before the external
  client is invoked. A signal before the first check ends the run with exit code 1
  before anything is issued to either store. A signal during the relational stage ends
  the run with exit code 1, if the engine returns, before any request is issued to the
  external service. A signal that arrives once the client has been invoked changes
  nothing: the run is the run without a signal, whatever the number of batches that have
  completed when it arrives.
\<close>

theorem signal_checked_around_relational_stage:
  "(signal_at w = BeforeDatabase \<longrightarrow>
      (\<exists>r. main e w = Some r \<and> exit_code r = 1 \<and> trace (db r) = [] \<and> calls (amp r) = []))
   \<and> (signal_at w = DuringDatabase \<longrightarrow>
      (\<forall>r. main e w = Some r \<longrightarrow> exit_code r = 1 \<and> calls (amp r) = []))
   \<and> main e (w\<lparr>signal_at := DuringAmplitude n\<rparr>) = main e (w\<lparr>signal_at := Never\<rparr>)"
proof (intro conjI impI allI)
  assume "signal_at w = BeforeDatabase"
  then show "\<exists>r. main e w = Some r \<and> exit_code r = 1 \<and> trace (db r) = [] \<and> calls (amp r) = []"
    by (simp add: main_def Let_def fatal_def rejected_def split: sum.splits)
next
  fix r
  assume "signal_at w = DuringDatabase" and "main e w = Some r"
  then show "exit_code r = 1" and "calls (amp r) = []"
    by (auto simp: main_def Let_def fatal_def rejected_def
          split: sum.splits option.splits prod.splits)
next
  show "main e (w\<lparr>signal_at := DuringAmplitude n\<rparr>) = main e (w\<lparr>signal_at := Never\<rparr>)"
    by (simp add: main_def Let_def cong: sum.case_cong option.case_cong prod.case_cong)
qed

lemma interrupted_run:
  "main example_env (quiet_world\<lparr>signal_at := DuringDatabase\<rparr>) =
     Some \<lparr>exit_code = 1,
           report_json =
             Some \<lparr>dryRun = False, input_totalIds = 5, input_uniqueIds = 5,
                   database_status = Success, database_error = None,
                   amplitude_successful = 0, amplitude_failed = 0, amplitude_results = []\<rparr>,
           summary_txt = DeletionFailed ''Job aborted after database step'',
           db = all_committed,
           amp = \<lparr>results = [], calls = [], sleeps = []\<rparr>\<rparr>"
proof -
  have "runGdprSqlWithTempTable (\<lambda>k. None) 2 [''u1'', ''u2'', ''u3'', ''u4'', ''u5'']
          = Some (None, all_committed)"
    using engine_no_fault [of 2 "[''u1'', ''u2'', ''u3'', ''u4'', ''u5'']"]
    by (simp add: example_partition all_committed_def)
  then show ?thesis
    using example_ids
    by (simp add: main_def Let_def fatal_def requireEnv_def example_env_def quiet_world_def)
qed

theorem signal_checked_around_relational_stage_witness:
  "(\<exists>r. main example_env (quiet_world\<lparr>signal_at := BeforeDatabase\<rparr>) = Some r
        \<and> exit_code r = 1 \<and> trace (db r) = [] \<and> calls (amp r) = [])
   \<and> (\<exists>r. main example_env (quiet_world\<lparr>signal_at := DuringDatabase\<rparr>) = Some r
        \<and> exit_code r = 1 \<and> calls (amp r) = []
        \<and> committed (db r) = [[''u1'', ''u2''], [''u3'', ''u4''], [''u5'']])
   \<and> main example_env (quiet_world\<lparr>signal_at := DuringAmplitude 0\<rparr>)
       = main example_env (quiet_world\<lparr>signal_at := Never\<rparr>)"
proof -
  note before = signal_checked_around_relational_stage
    [of "quiet_world\<lparr>signal_at := BeforeDatabase\<rparr>" example_env 0]
  note during = signal_checked_around_relational_stage
    [of "quiet_world\<lparr>signal_at := DuringDatabase\<rparr>" example_env 0]
  note after = signal_checked_around_relational_stage [of quiet_world example_env 0]
  have 1: "\<exists>r. main example_env (quiet_world\<lparr>signal_at := BeforeDatabase\<rparr>) = Some r
        \<and> exit_code r = 1 \<and> trace (db r) = [] \<and> calls (amp r) = []"
    using before by simp
  obtain r where r: "main example_env (quiet_world\<lparr>signal_at := DuringDatabase\<rparr>) = Some r"
    "committed (db r) = [[''u1'', ''u2''], [''u3'', ''u4''], [''u5'']]"
    using interrupted_run by (simp add: all_committed_def)
  have "exit_code r = 1 \<and> calls (amp r) = []"
    using during r(1) by simp
  with r have 2: "\<exists>r. main example_env (quiet_world\<lparr>signal_at := DuringDatabase\<rparr>) = Some r
        \<and> exit_code r = 1 \<and> calls (amp r) = []
        \<and> committed (db r) = [[''u1'', ''u2''], [''u3'', ''u4''], [''u5'']]"
    by blast
  have 3: "main example_env (quiet_world\<lparr>signal_at := DuringAmplitude 0\<rparr>)
       = main example_env (quiet_world\<lparr>signal_at := Never\<rparr>)"
    using after by simp
  show ?thesis
    using 1 2 3 by blast
qed

text \<open>
  The claim as it was stated fails: with batches handled one at a time, a signal that
  arrives before the first batch has completed precedes the scheduling of the second and
  the third batch, and both are issued all the same.
\<close>

theorem batches_issued_after_signal_counterexample:
  "map_option (\<lambda>r. calls (amp r)) (main example_env (quiet_world\<lparr>signal_at := DuringAmplitude 0\<rparr>))
     = Some [(0, 0), (1, 0), (2, 0)]
   \<and> \<not> scheduled_before_signal 1 0 1
   \<and> \<not> scheduled_before_signal 1 0 2"
proof -
  have "example_env\<lparr>DRY_RUN := None\<rparr> = example_env"
    by (simp add: example_env_def)
  then show ?thesis
    using quiet_run [of "DuringAmplitude 0" None]
    by (simp add: scheduled_before_signal_def one_enat_def)
qed

section \<open>A missing credential\<close>

text \<open>
  Claim C10. Called with an empty API key, the client throws at once, for every list of
  identifiers and all options: the error is the missing-key error, no batch is formed, no
  entry is pushed and no request is issued. (This holds even for a batch size of 0, for
  which the batching loop would not end.)
\<close>

theorem missing_api_key_throws:
  "deleteUsersAmplitude publicIds [] options resp fl rnd order =
     Some (Some ''Missing Amplitude API key'', \<lparr>results = [], calls = [], sleeps = []\<rparr>)"
  by (simp add: deleteUsersAmplitude_def Let_def)

end
